theory Spec2Isabelle
  imports Main
begin

section \<open>Go strings and the library functions the program calls\<close>

text \<open>
  A Go string is a sequence of bytes; it is modelled as \<^typ>\<open>string\<close>. The functions below
  follow the behaviour of the Go standard library on the bytes below 0x80. The white space
  of \<open>unicode.IsSpace\<close> (used by \<open>strings.TrimSpace\<close> and \<open>strings.Fields\<close>) is
  tab, line feed, vertical tab, form feed, carriage return and space; the white space of
  the regular expression class \<open>\s\<close> is the same without the vertical tab. The Unicode
  spaces beyond ASCII (U+0085, U+00A0, U+2000 and so on, several bytes each in UTF-8) are
  not modelled: the model is exact on every string that holds none of them.
\<close>

type_synonym path = string

definition isSpace :: "char \<Rightarrow> bool" where
  "isSpace c \<longleftrightarrow> c \<in> {CHR 0x09, CHR 0x0A, CHR 0x0B, CHR 0x0C, CHR 0x0D, CHR '' ''}"

definition reSpace :: "char \<Rightarrow> bool" where
  "reSpace c \<longleftrightarrow> c \<in> {CHR 0x09, CHR 0x0A, CHR 0x0C, CHR 0x0D, CHR '' ''}"

definition isTerminal :: "char \<Rightarrow> bool" where
  "isTerminal c \<longleftrightarrow> c \<in> {CHR ''.'', CHR ''!'', CHR ''?''}"

definition isUpper :: "char \<Rightarrow> bool" where
  "isUpper c \<longleftrightarrow> c \<in> set ''ABCDEFGHIJKLMNOPQRSTUVWXYZ''"

text \<open>\<open>strings.TrimSpace\<close>: leading and trailing white space removed.\<close>

definition strings_TrimSpace :: "string \<Rightarrow> string" where
  "strings_TrimSpace s = rev (dropWhile isSpace (rev (dropWhile isSpace s)))"

text \<open>\<open>strings.Fields\<close>: the maximal runs of non-space bytes, in order.\<close>

function strings_Fields :: "string \<Rightarrow> string list" where
  "strings_Fields [] = []"
| "strings_Fields (c # cs) =
     (if isSpace c then strings_Fields cs
      else (c # takeWhile (\<lambda>x. \<not> isSpace x) cs)
             # strings_Fields (dropWhile (\<lambda>x. \<not> isSpace x) cs))"
  by pat_completeness auto
termination
  by (relation "measure length") (simp_all add: length_dropWhile_le le_imp_less_Suc)

text \<open>\<open>strings.Join(elems, sep)\<close>.\<close>

fun strings_Join :: "string list \<Rightarrow> string \<Rightarrow> string" where
  "strings_Join [] sep = []"
| "strings_Join [x] sep = x"
| "strings_Join (x # y # zs) sep = x @ sep @ strings_Join (y # zs) sep"

text \<open>
  \<open>strings.Split(s, sep)\<close> for a separator that is not empty (every call of the program
  passes one): the pieces between the occurrences of \<open>sep\<close>, found from the left without
  overlap; a string with no occurrence is the only piece.
\<close>

function splitFrom :: "string \<Rightarrow> string \<Rightarrow> string \<Rightarrow> string list" where
  "splitFrom cur [] sep = [rev cur]"
| "splitFrom cur (c # cs) sep =
     (if sep \<noteq> [] \<and> take (length sep) (c # cs) = sep
      then rev cur # splitFrom [] (drop (length sep) (c # cs)) sep
      else splitFrom (c # cur) cs sep)"
  by pat_completeness auto
termination
  by (relation "measure (\<lambda>(cur, s, sep). length s)") auto

definition strings_Split :: "string \<Rightarrow> string \<Rightarrow> string list" where
  "strings_Split s sep = splitFrom [] s sep"

text \<open>\<open>strings.Contains(s, substr)\<close>.\<close>

fun strings_Contains :: "string \<Rightarrow> string \<Rightarrow> bool" where
  "strings_Contains [] sub = (sub = [])"
| "strings_Contains (c # cs) sub =
     (take (length sub) (c # cs) = sub \<or> strings_Contains cs sub)"

text \<open>
  \<open>strings.ReplaceAll(s, old, new)\<close> for \<open>old\<close> not empty: the occurrences of \<open>old\<close>
  are replaced from the left, without overlap.
\<close>

function strings_ReplaceAll :: "string \<Rightarrow> string \<Rightarrow> string \<Rightarrow> string" where
  "strings_ReplaceAll [] old new = []"
| "strings_ReplaceAll (c # cs) old new =
     (if old \<noteq> [] \<and> take (length old) (c # cs) = old
      then new @ strings_ReplaceAll (drop (length old) (c # cs)) old new
      else c # strings_ReplaceAll cs old new)"
  by pat_completeness auto
termination
  by (relation "measure (\<lambda>(s, old, new). length s)") auto

text \<open>\<open>strings.TrimSuffix(s, suffix)\<close>.\<close>

definition strings_TrimSuffix :: "string \<Rightarrow> string \<Rightarrow> string" where
  "strings_TrimSuffix s suffix =
     (if length suffix \<le> length s \<and> drop (length s - length suffix) s = suffix
      then take (length s - length suffix) s else s)"

text \<open>\<open>strings.ToLower\<close> on the ASCII letters; other bytes are left as they are.\<close>

definition lowerChar :: "char \<Rightarrow> char" where
  "lowerChar c = (if isUpper c then char_of (of_char c + (32 :: nat)) else c)"

definition strings_ToLower :: "string \<Rightarrow> string" where
  "strings_ToLower s = map lowerChar s"

subsection \<open>Paths (package \<open>path/filepath\<close>, Unix separators)\<close>

text \<open>
  \<open>filepath.Ext\<close>: the suffix that starts at the last dot of the last element of the
  path, empty when that element has no dot.
\<close>

definition filepath_Ext :: "path \<Rightarrow> string" where
  "filepath_Ext p =
     (let r = rev p;
          t = takeWhile (\<lambda>c. c \<noteq> CHR ''/'' \<and> c \<noteq> CHR ''.'') r
      in case drop (length t) r of
           [] \<Rightarrow> []
         | c # _ \<Rightarrow> if c = CHR ''.'' then CHR ''.'' # rev t else [])"

text \<open>
  \<open>filepath.Base\<close>: the last element of the path, trailing slashes removed first;
  \<open>"."\<close> for the empty path and \<open>"/"\<close> for a path of slashes only.
\<close>

definition filepath_Base :: "path \<Rightarrow> string" where
  "filepath_Base p =
     (if p = [] then ''.''
      else let q = dropWhile (\<lambda>c. c = CHR ''/'') (rev p);
               b = rev (takeWhile (\<lambda>c. c \<noteq> CHR ''/'') q)
           in if b = [] then ''/'' else b)"

text \<open>
  \<open>filepath.Clean\<close>, by path elements: empty elements and \<open>.\<close> are dropped, \<open>..\<close>
  removes the element before it (at the root it is dropped, at the start of a relative path
  it is kept), and the empty result is \<open>"."\<close>.
\<close>

fun cleanElems :: "bool \<Rightarrow> string list \<Rightarrow> string list \<Rightarrow> string list" where
  "cleanElems rooted stack [] = rev stack"
| "cleanElems rooted stack (e # es) =
     (if e = [] \<or> e = ''.'' then cleanElems rooted stack es
      else if e = ''..'' then
        (case stack of
           [] \<Rightarrow> if rooted then cleanElems rooted [] es else cleanElems rooted [e] es
         | t # ts \<Rightarrow> if t = ''..'' then cleanElems rooted (e # stack) es
                     else cleanElems rooted ts es)
      else cleanElems rooted (e # stack) es)"

definition filepath_Clean :: "path \<Rightarrow> path" where
  "filepath_Clean p =
     (let rooted = (p \<noteq> [] \<and> hd p = CHR ''/'');
          out = (if rooted then ''/'' else []) @
                strings_Join (cleanElems rooted [] (strings_Split p ''/'')) ''/''
      in if out = [] then ''.'' else out)"

text \<open>\<open>filepath.Dir\<close>: the path up to its last slash, cleaned.\<close>

definition filepath_Dir :: "path \<Rightarrow> path" where
  "filepath_Dir p =
     filepath_Clean (rev (dropWhile (\<lambda>c. c \<noteq> CHR ''/'') (rev p)))"

text \<open>
  \<open>filepath.Join\<close> of two elements: leading empty elements are ignored, the rest is
  joined with a slash and cleaned.
\<close>

definition filepath_Join :: "path \<Rightarrow> path \<Rightarrow> path" where
  "filepath_Join a b =
     (if a \<noteq> [] then filepath_Clean (a @ ''/'' @ b)
      else if b \<noteq> [] then filepath_Clean b
      else [])"

section \<open>TextFormatter (\<open>internal/transcription/formatter.go\<close>)\<close>

subsection \<open>The three regular expressions of the formatter\<close>

text \<open>
  \<open>regexp.MustCompile(`\s+`).ReplaceAllString(text, " ")\<close>: every maximal run of
  \<open>\s\<close> is replaced by one space.
\<close>

function replaceWhitespace :: "string \<Rightarrow> string" where
  "replaceWhitespace [] = []"
| "replaceWhitespace (c # cs) =
     (if reSpace c then CHR '' '' # replaceWhitespace (dropWhile reSpace cs)
      else c # replaceWhitespace cs)"
  by pat_completeness auto
termination
  by (relation "measure length") (simp_all add: length_dropWhile_le le_imp_less_Suc)

text \<open>
  \<open>sentenceRegex.ReplaceAllString(text, "$1\n$2")\<close> with
  \<open>sentenceRegex = ([.!?]+)\s+([A-Z])\<close>. The matches are taken from the left and do not
  overlap. A match that starts at a terminal mark takes the whole run of marks, then the
  whole run of \<open>\s\<close> (at least one), then one upper-case letter; the three classes are
  disjoint, so no shorter run can match where the longest does not. The match is replaced
  by the marks, a line feed and the letter.
\<close>

function replaceSentenceRegex :: "string \<Rightarrow> string" where
  "replaceSentenceRegex [] = []"
| "replaceSentenceRegex (c # cs) =
     (if isTerminal c then
        (let marks = takeWhile isTerminal (c # cs);
             rest1 = dropWhile isTerminal (c # cs);
             blanks = takeWhile reSpace rest1;
             rest2 = dropWhile reSpace rest1
         in case rest2 of
              [] \<Rightarrow> c # replaceSentenceRegex cs
            | u # rest3 \<Rightarrow>
                if blanks \<noteq> [] \<and> isUpper u
                then marks @ [CHR 0x0A, u] @ replaceSentenceRegex rest3
                else c # replaceSentenceRegex cs)
      else c # replaceSentenceRegex cs)"
  by pat_completeness auto
termination
proof (relation "measure length")
  show "wf (measure length)" by simp
next
  fix c :: char and cs marks rest1 blanks rest2 :: string
  assume "rest1 = dropWhile isTerminal (c # cs)" "rest2 = dropWhile reSpace rest1" "rest2 = []"
  show "(cs, c # cs) \<in> measure length" by simp
next
  fix c u :: char and cs marks rest1 blanks rest2 rest3 :: string
  assume r1: "rest1 = dropWhile isTerminal (c # cs)"
    and r2: "rest2 = dropWhile reSpace rest1"
    and r3: "rest2 = u # rest3"
  have "length rest2 \<le> length rest1"
    unfolding r2 by (rule length_dropWhile_le)
  moreover have "length rest1 \<le> length (c # cs)"
    unfolding r1 by (rule length_dropWhile_le)
  ultimately show "(rest3, c # cs) \<in> measure length"
    using r3 by simp
next
  fix c u :: char and cs :: string
  show "(cs, c # cs) \<in> measure length" by simp
next
  fix c :: char and cs :: string
  show "(cs, c # cs) \<in> measure length" by simp
qed

text \<open>
  \<open>regexp.MustCompile(`[.]{2,}`).ReplaceAllString(text, ".")\<close> and its two siblings:
  every maximal run of two or more \<open>m\<close> is replaced by one \<open>m\<close>.
\<close>

function replaceRepeated :: "char \<Rightarrow> string \<Rightarrow> string" where
  "replaceRepeated m [] = []"
| "replaceRepeated m (c # cs) =
     (if c = m \<and> cs \<noteq> [] \<and> hd cs = m
      then m # replaceRepeated m (dropWhile (\<lambda>x. x = m) cs)
      else c # replaceRepeated m cs)"
  by pat_completeness auto
termination
  by (relation "measure (\<lambda>(m, s). length s)") (simp_all add: length_dropWhile_le le_imp_less_Suc)

subsection \<open>The formatter\<close>

record TextFormatter =
  targetWordCount :: nat
  maxSentencesPerChunk :: nat
  minWordsForSignificantSentence :: nat

definition NewTextFormatter :: TextFormatter where
  "NewTextFormatter =
     \<lparr>targetWordCount = 50, maxSentencesPerChunk = 4, minWordsForSignificantSentence = 4\<rparr>"

text \<open>\<open>splitIntoSentences\<close>.\<close>

definition splitIntoSentences :: "string \<Rightarrow> string list" where
  "splitIntoSentences text0 =
     (let text1 = replaceWhitespace (strings_TrimSpace text0);
          text2 = replaceSentenceRegex text1;
          rawSentences = strings_Split text2 [CHR 0x0A];
          sentences = filter (\<lambda>s. s \<noteq> []) (map strings_TrimSpace rawSentences)
      in if length sentences \<le> 1 \<and> length rawSentences = 1 then [text2] else sentences)"

text \<open>\<open>countWords\<close> (the word counts are lengths, so they are natural numbers).\<close>

definition countWords :: "string \<Rightarrow> nat" where
  "countWords sentence =
     (let s = strings_TrimSpace sentence
      in if s = [] then 0 else length (strings_Fields s))"

text \<open>\<open>cleanText\<close>.\<close>

definition cleanText :: "string \<Rightarrow> string" where
  "cleanText text0 =
     (let t1 = replaceWhitespace text0;
          t2 = strings_ReplaceAll t1 '' ,'' '','';
          t3 = strings_ReplaceAll t2 '' .'' ''.'';
          t4 = strings_ReplaceAll t3 '' !'' ''!'';
          t5 = strings_ReplaceAll t4 '' ?'' ''?'';
          t6 = replaceRepeated (CHR ''.'') t5;
          t7 = replaceRepeated (CHR ''!'') t6;
          t8 = replaceRepeated (CHR ''?'') t7
      in strings_TrimSpace t8)"

text \<open>
  The inner loop of \<open>Format\<close> that builds the tentative chunk: the sentences from the
  cursor on are appended until the word count reaches the target. The triple is
  (\<open>currentChunkSentences\<close>, \<open>currentChunkWordCount\<close>,
  \<open>currentChunkSignificantSentenceCount\<close>).
\<close>

fun buildChunk ::
  "TextFormatter \<Rightarrow> string list \<Rightarrow> string list \<times> nat \<times> nat \<Rightarrow> string list \<times> nat \<times> nat" where
  "buildChunk f [] (chunk, wc, sig) = (chunk, wc, sig)"
| "buildChunk f (sentence # rest) (chunk, wc, sig) =
     (let wordsInSentence = countWords sentence;
          chunk' = chunk @ [sentence];
          wc' = wc + wordsInSentence;
          sig' = (if wordsInSentence \<ge> minWordsForSignificantSentence f then sig + 1 else sig)
      in if wc' \<ge> targetWordCount f then (chunk', wc', sig')
         else buildChunk f rest (chunk', wc', sig'))"

text \<open>
  The loop that cuts the chunk at the significant sentence that reaches the maximum. The
  pair is (\<open>sentencesForFinalChunk\<close>, \<open>significantSentenceCount\<close>).
\<close>

fun truncateChunk ::
  "TextFormatter \<Rightarrow> string list \<Rightarrow> string list \<times> nat \<Rightarrow> string list" where
  "truncateChunk f [] (final, cnt) = final"
| "truncateChunk f (sentence # rest) (final, cnt) =
     (let final' = final @ [sentence]
      in if countWords sentence \<ge> minWordsForSignificantSentence f
         then (if cnt + 1 \<ge> maxSentencesPerChunk f then final'
               else truncateChunk f rest (final', cnt + 1))
         else truncateChunk f rest (final', cnt))"

definition finalChunk :: "TextFormatter \<Rightarrow> string list \<Rightarrow> string list" where
  "finalChunk f remaining =
     (case buildChunk f remaining ([], 0, 0) of
        (chunk, wc, sig) \<Rightarrow>
          if sig > maxSentencesPerChunk f then truncateChunk f chunk ([], 0) else chunk)"

text \<open>
  The outer loop of \<open>Format\<close>; \<open>idx\<close> is \<open>processedSentenceIndex\<close> and \<open>out\<close> the
  contents of the builder \<open>finalFormattedText\<close>.
\<close>

function formatLoop :: "TextFormatter \<Rightarrow> string list \<Rightarrow> nat \<Rightarrow> string \<Rightarrow> string" where
  "formatLoop f sentences idx out =
     (if idx < length sentences then
        (let final = finalChunk f (drop idx sentences)
         in if length final > 0 then
              (let chunkText = cleanText (strings_Join final '' '');
                   out' = (if length out > 0 then out @ [CHR 0x0A, CHR 0x0A] else out) @ chunkText
               in formatLoop f sentences (idx + length final) out')
            else out)
      else out)"
  by pat_completeness auto
termination
  by (relation "measure (\<lambda>(f, sentences, idx, out). length sentences - idx)")
    (auto simp: neq_Nil_conv)

definition Format :: "TextFormatter \<Rightarrow> string \<Rightarrow> string" where
  "Format f text0 =
     (if strings_TrimSpace text0 = [] then []
      else let sentences = splitIntoSentences text0
           in if length sentences = 0 then text0
              else strings_TrimSpace (formatLoop f sentences 0 []))"

section \<open>The outside world\<close>

text \<open>
  Go errors are values; the constructors name the places where the program creates them,
  and \<open>Wrapped\<close> is \<open>fmt.Errorf("...: %w", err)\<close>.
\<close>

datatype error =
    UnknownModel string
  | DownloadStartFailed
  | DownloadBadStatus nat
  | CreateOutputFailed
  | DownloadCopyFailed
  | InputDoesNotExist path
  | FfmpegFailed
  | OutputNotCreated path
  | WhisperFailed
  | WriteFileFailed
  | CannotAccess path
  | CannotReadDir path
  | WalkFailed path
  | NoAudioFilesFound
  | Wrapped string error

text \<open>
  What \<open>os.Stat\<close>, \<open>os.ReadDir\<close> and \<open>filepath.Walk\<close> see under an input path when
  the run starts: a file, a directory with its entries in the order of their names, or a
  directory that cannot be listed.
\<close>

datatype node = FileNode | DirNode "(string \<times> node) list" | UnreadableDir

text \<open>
  The answer of \<open>http.Get\<close>: the request fails, or a response arrives with a status code
  and a body. The body delivers \<open>bodyData\<close> and then either ends or breaks with a read
  error (\<open>bodyComplete\<close> false).
\<close>

datatype http_result =
    GetFailed
  | Response (statusCode: nat) (bodyData: string) (bodyComplete: bool)

text \<open>
  The run of \<open>ffmpeg\<close>: it exits with an error, or it exits normally and has written the
  output file with the given contents or no file at all.
\<close>

datatype ffmpeg_result = FfmpegError | FfmpegDone "string option"

text \<open>
  The collaborators that the program reaches through the operating system. \<open>disk\<close> answers
  for the input paths; \<open>probe\<close> stands for \<open>GetAudioInfo\<close> followed by
  \<open>parseAudioDuration\<close> (a floating-point parse of the duration that \<open>ffmpeg\<close> prints),
  in nanoseconds; \<open>whisper\<close> takes the model path and the audio path and gives the
  combined output of the engine, or nothing when the engine exits with an error.
\<close>

record world =
  disk :: "path \<Rightarrow> node option"
  homeDir :: path
  http_get :: "string \<Rightarrow> http_result"
  can_create :: "path \<Rightarrow> bool"
  ffmpeg :: "path \<Rightarrow> ffmpeg_result"
  whisper :: "path \<Rightarrow> path \<Rightarrow> string option"
  probe :: "path \<Rightarrow> nat"

text \<open>
  The files that the program creates, checks and removes (models, converted audio,
  transcripts), with their contents. The program never writes to an input file.
\<close>

type_synonym store = "path \<rightharpoonup> string"

section \<open>Model manager (\<open>internal/models/manager.go\<close>)\<close>

record ModelInfo =
  Name :: string
  Size :: string
  Downloaded :: bool
  Path :: path
  Description :: string
  DownloadURL :: string

record Manager =
  cacheDir :: path

definition NewManager :: "world \<Rightarrow> path \<Rightarrow> Manager" where
  "NewManager w dir =
     \<lparr>cacheDir = (if dir = [] then filepath_Join (homeDir w) ''.whisper'' else dir)\<rparr>"

definition baseURL :: string where
  "baseURL = ''https://huggingface.co/ggerganov/whisper.cpp/resolve/main''"

definition mkModel :: "Manager \<Rightarrow> string \<Rightarrow> string \<Rightarrow> string \<Rightarrow> ModelInfo" where
  "mkModel m name sz desc =
     \<lparr>Name = name, Size = sz, Downloaded = False,
      Path = filepath_Join (cacheDir m) (''ggml-'' @ name @ ''.bin''),
      Description = desc,
      DownloadURL = baseURL @ ''/ggml-'' @ name @ ''.bin''\<rparr>"

definition AvailableModels :: "Manager \<Rightarrow> ModelInfo list" where
  "AvailableModels m =
     [mkModel m ''tiny'' ''39 MB'' ''Fastest, least accurate'',
      mkModel m ''tiny.en'' ''39 MB'' ''Fastest, least accurate (English only)'',
      mkModel m ''base'' ''142 MB'' ''Good balance of speed and accuracy'',
      mkModel m ''base.en'' ''142 MB'' ''Good balance of speed and accuracy (English only)'',
      mkModel m ''small'' ''488 MB'' ''Better accuracy, moderate speed'',
      mkModel m ''small.en'' ''488 MB'' ''Better accuracy, moderate speed (English only)'',
      mkModel m ''medium'' ''1.5 GB'' ''High accuracy, slower'',
      mkModel m ''medium.en'' ''1.5 GB'' ''High accuracy, slower (English only)'',
      mkModel m ''large-v3'' ''2.9 GB'' ''Latest large model with improvements'',
      mkModel m ''large-v3-turbo'' ''1.5 GB'' ''Large v3 Turbo - faster with similar accuracy'']"

text \<open>The loop that looks a model up by name (first match).\<close>

definition findModel :: "ModelInfo list \<Rightarrow> string \<Rightarrow> ModelInfo option" where
  "findModel models name = find (\<lambda>model. Name model = name) models"

text \<open>
  \<open>Manager.Download\<close>. \<open>os.Stat\<close> succeeds when the file is in the store; \<open>os.Create\<close>
  leaves an empty file; \<open>io.Copy\<close> writes what the body delivers, and when it fails the
  file is removed before the error is returned.
\<close>

definition Download :: "world \<Rightarrow> Manager \<Rightarrow> store \<Rightarrow> string \<Rightarrow> error option \<times> store" where
  "Download w m files modelName =
     (case findModel (AvailableModels m) modelName of
        None \<Rightarrow> (Some (UnknownModel modelName), files)
      | Some targetModel \<Rightarrow>
          if files (Path targetModel) \<noteq> None then (None, files)
          else
            (case http_get w (DownloadURL targetModel) of
               GetFailed \<Rightarrow> (Some (Wrapped ''failed to start download'' DownloadStartFailed), files)
             | Response status body complete \<Rightarrow>
                 if status \<noteq> 200 then (Some (DownloadBadStatus status), files)
                 else if \<not> can_create w (Path targetModel)
                 then (Some (Wrapped ''failed to create output file'' CreateOutputFailed), files)
                 else
                   (let created = files(Path targetModel \<mapsto> []);
                        copied = created(Path targetModel \<mapsto> body)
                    in if \<not> complete
                       then (Some (Wrapped ''download failed'' DownloadCopyFailed),
                             copied(Path targetModel := None))
                       else (None, copied))))"

section \<open>Audio processor and whisper client (\<open>internal/audio\<close>, \<open>internal/whisper\<close>)\<close>

record Processor =
  ffmpegPath :: path
  tempDir :: path

definition NewProcessor :: "path \<Rightarrow> path \<Rightarrow> Processor" where
  "NewProcessor fp td =
     \<lparr>ffmpegPath = (if fp = [] then ''ffmpeg'' else fp),
      tempDir = (if td = [] then ''/tmp/ghospel'' else td)\<rparr>"

definition ConvertToWav :: "world \<Rightarrow> Processor \<Rightarrow> store \<Rightarrow> path \<Rightarrow> (error + path) \<times> store" where
  "ConvertToWav w p files inputPath =
     (let inputBase = filepath_Base inputPath;
          inputExt = filepath_Ext inputBase;
          outputName = strings_TrimSuffix inputBase inputExt @ ''_converted.wav'';
          outputPath = filepath_Join (tempDir p) outputName
      in if disk w inputPath = None then (Inl (InputDoesNotExist inputPath), files)
         else
           (case ffmpeg w inputPath of
              FfmpegError \<Rightarrow> (Inl (Wrapped ''ffmpeg conversion failed'' FfmpegFailed), files)
            | FfmpegDone None \<Rightarrow>
                if files outputPath = None then (Inl (OutputNotCreated outputPath), files)
                else (Inr outputPath, files)
            | FfmpegDone (Some wav) \<Rightarrow> (Inr outputPath, files(outputPath \<mapsto> wav))))"

definition Cleanup :: "Processor \<Rightarrow> store \<Rightarrow> path \<Rightarrow> store" where
  "Cleanup p files filePath =
     (if strings_Contains filePath (tempDir p) then files(filePath := None) else files)"

record Client =
  whisperBinaryPath :: path
  modelsDir :: path

text \<open>
  \<open>strings.SplitN(s, sep, n)\<close> for \<open>n > 0\<close> and \<open>sep\<close> not empty: at most \<open>n\<close>
  pieces, the last one the unsplit rest.
\<close>

fun cutFrom :: "string \<Rightarrow> string \<Rightarrow> string \<Rightarrow> (string \<times> string) option" where
  "cutFrom cur [] sep = None"
| "cutFrom cur (c # cs) sep =
     (if take (length sep) (c # cs) = sep then Some (rev cur, drop (length sep) (c # cs))
      else cutFrom (c # cur) cs sep)"

fun strings_SplitN :: "string \<Rightarrow> string \<Rightarrow> nat \<Rightarrow> string list" where
  "strings_SplitN s sep 0 = []"
| "strings_SplitN s sep (Suc 0) = [s]"
| "strings_SplitN s sep (Suc (Suc n)) =
     (case cutFrom [] s sep of
        None \<Rightarrow> [s]
      | Some (a, b) \<Rightarrow> a # strings_SplitN b sep (Suc n))"

text \<open>
  The loop of \<open>Client.Transcribe\<close> over the lines of the engine's output; \<open>inTranscription\<close>
  is the flag and \<open>transcription\<close> the contents of the builder.
\<close>

fun parseLines :: "string list \<Rightarrow> bool \<Rightarrow> string \<Rightarrow> string" where
  "parseLines [] inTranscription transcription = transcription"
| "parseLines (l # ls) inTranscription transcription =
     (let line = strings_TrimSpace l
      in if strings_Contains line ''[00:'' \<or> inTranscription then
           (if strings_Contains line '']'' then
              (let parts = strings_SplitN line '']'' 2
               in if length parts > 1 then
                    (let text0 = strings_TrimSpace (parts ! 1)
                     in if text0 \<noteq> [] then parseLines ls True (transcription @ text0 @ '' '')
                        else parseLines ls True transcription)
                  else parseLines ls True transcription)
            else parseLines ls True transcription)
         else parseLines ls inTranscription transcription)"

definition parseOutput :: "string \<Rightarrow> string" where
  "parseOutput output =
     (let lines = strings_Split output [CHR 0x0A];
          result = strings_TrimSpace (parseLines lines False [])
      in if result = [] then output else result)"

definition Transcribe :: "world \<Rightarrow> Client \<Rightarrow> path \<Rightarrow> string \<Rightarrow> error + string" where
  "Transcribe w c audioPath modelName =
     (let modelPath = filepath_Join (modelsDir c) (''ggml-'' @ modelName @ ''.bin'')
      in case whisper w modelPath audioPath of
           None \<Rightarrow> Inl (Wrapped ''whisper transcription failed'' WhisperFailed)
         | Some output \<Rightarrow> Inr (parseOutput output))"

section \<open>Transcription service (\<open>internal/transcription/service.go\<close>)\<close>

record Options =
  Model :: string
  OutputDir :: path
  Workers :: int
  Recursive :: bool
  Timestamps :: bool
  Prompt :: string
  Language :: string
  Format_opt :: string
  CacheDir :: path
  Quiet :: bool
  Verbose :: bool

record Service =
  opts :: Options
  audioProcessor :: Processor
  whisperClient :: Client
  modelManager :: Manager

text \<open>
  \<open>NewService\<close>. The whisper binary is located by a search of the machine
  (\<open>findWhisperBinary\<close>); it is a parameter here.
\<close>

definition NewService :: "world \<Rightarrow> path \<Rightarrow> Options \<Rightarrow> Service" where
  "NewService w binary options =
     \<lparr>opts = options,
      audioProcessor = NewProcessor ''/opt/homebrew/bin/ffmpeg'' ''/tmp/ghospel'',
      whisperClient = \<lparr>whisperBinaryPath = binary, modelsDir = CacheDir options\<rparr>,
      modelManager = NewManager w (CacheDir options)\<rparr>"

definition supportedExts :: "string list" where
  "supportedExts = [''.mp3'', ''.m4a'', ''.wav'', ''.flac'', ''.mp4'', ''.aac'', ''.ogg'']"

definition isAudioFile :: "path \<Rightarrow> string list \<Rightarrow> bool" where
  "isAudioFile p exts = (strings_ToLower (filepath_Ext p) \<in> set exts)"

text \<open>
  \<open>filepath.Walk\<close> with the callback of \<open>findAudioFiles\<close>: the callback returns the
  error it is given (a directory that cannot be listed), which stops the walk, and appends
  every non-directory with a supported extension. The result is the list of appended paths.
\<close>

fun walk :: "path \<Rightarrow> node \<Rightarrow> error + path list"
  and walkEntries :: "path \<Rightarrow> (string \<times> node) list \<Rightarrow> error + path list" where
  "walk p FileNode = Inr (if isAudioFile p supportedExts then [p] else [])"
| "walk p UnreadableDir = Inl (WalkFailed p)"
| "walk p (DirNode entries) = walkEntries p entries"
| "walkEntries p [] = Inr []"
| "walkEntries p (e # rest) =
     (case walk (filepath_Join p (fst e)) (snd e) of
        Inl err \<Rightarrow> Inl err
      | Inr found \<Rightarrow>
          (case walkEntries p rest of
             Inl err \<Rightarrow> Inl err
           | Inr others \<Rightarrow> Inr (found @ others)))"

text \<open>The loop over the entries of a directory when \<open>Recursive\<close> is off.\<close>

fun dirEntries :: "path \<Rightarrow> (string \<times> node) list \<Rightarrow> path list" where
  "dirEntries input [] = []"
| "dirEntries input (e # rest) =
     (if snd e = FileNode \<and> isAudioFile (filepath_Join input (fst e)) supportedExts
      then filepath_Join input (fst e) # dirEntries input rest
      else dirEntries input rest)"

text \<open>\<open>findAudioFiles\<close>; the second argument is the slice \<open>audioFiles\<close> built so far.\<close>

fun findAudioFilesFrom :: "world \<Rightarrow> Service \<Rightarrow> path list \<Rightarrow> path list \<Rightarrow> error + path list" where
  "findAudioFilesFrom w s audioFiles [] = Inr audioFiles"
| "findAudioFilesFrom w s audioFiles (input # inputs) =
     (case disk w input of
        None \<Rightarrow> Inl (Wrapped (''cannot access '' @ input) (CannotAccess input))
      | Some FileNode \<Rightarrow>
          if isAudioFile input supportedExts
          then findAudioFilesFrom w s (audioFiles @ [input]) inputs
          else findAudioFilesFrom w s audioFiles inputs
      | Some UnreadableDir \<Rightarrow>
          if Recursive (opts s) then Inl (WalkFailed input)
          else Inl (Wrapped (''cannot read directory '' @ input) (CannotReadDir input))
      | Some (DirNode entries) \<Rightarrow>
          if Recursive (opts s) then
            (case walk input (DirNode entries) of
               Inl err \<Rightarrow> Inl err
             | Inr found \<Rightarrow> findAudioFilesFrom w s (audioFiles @ found) inputs)
          else findAudioFilesFrom w s (audioFiles @ dirEntries input entries) inputs)"

definition findAudioFiles :: "world \<Rightarrow> Service \<Rightarrow> path list \<Rightarrow> error + path list" where
  "findAudioFiles w s inputs = findAudioFilesFrom w s [] inputs"

text \<open>\<open>getOutputPath\<close> (the directories made by \<open>os.MkdirAll\<close> are not files of the store).\<close>

definition getOutputPath :: "Service \<Rightarrow> path \<Rightarrow> path" where
  "getOutputPath s inputPath =
     (let dir = (if OutputDir (opts s) \<noteq> [] then OutputDir (opts s) else filepath_Dir inputPath);
          base = strings_TrimSuffix (filepath_Base inputPath) (filepath_Ext inputPath);
          ext = ''.'' @ Format_opt (opts s)
      in filepath_Join dir (base @ ext))"

text \<open>\<open>ensureModelDownloaded\<close>.\<close>

definition ensureModelDownloaded :: "world \<Rightarrow> Service \<Rightarrow> store \<Rightarrow> error option \<times> store" where
  "ensureModelDownloaded w s files =
     (case findModel (AvailableModels (modelManager s)) (Model (opts s)) of
        None \<Rightarrow> (Some (UnknownModel (Model (opts s))), files)
      | Some targetModel \<Rightarrow>
          if files (Path targetModel) = None
          then Download w (modelManager s) files (Model (opts s))
          else (None, files))"

text \<open>
  \<open>prepareAudioFile\<close>: the result is the path handed to the engine and the flag
  \<open>needsCleanup\<close>.
\<close>

definition prepareAudioFile ::
  "world \<Rightarrow> Service \<Rightarrow> store \<Rightarrow> path \<Rightarrow> (error + path \<times> bool) \<times> store" where
  "prepareAudioFile w s files inputPath =
     (let ext = strings_ToLower (filepath_Ext inputPath)
      in if ext = ''.wav'' then (Inr (inputPath, False), files)
         else
           (case ConvertToWav w (audioProcessor s) files inputPath of
              (Inl err, files') \<Rightarrow> (Inl err, files')
            | (Inr wavPath, files') \<Rightarrow> (Inr (wavPath, True), files')))"

text \<open>\<open>formatOutput\<close>.\<close>

definition formatOutput :: "Service \<Rightarrow> string \<Rightarrow> path \<Rightarrow> string" where
  "formatOutput s transcription inputPath =
     ''# Transcription of: '' @ filepath_Base inputPath @ [CHR 0x0A] @
     ''# Model: '' @ Model (opts s) @ [CHR 0x0A] @
     ''# Generated with Ghospel v0.1.0'' @ [CHR 0x0A, CHR 0x0A] @
     Format NewTextFormatter transcription @ [CHR 0x0A]"

text \<open>\<open>Service.countWords\<close>.\<close>

definition service_countWords :: "string \<Rightarrow> nat" where
  "service_countWords text0 =
     (if text0 = [] then 0 else length (strings_Fields (strings_TrimSpace text0)))"

record FileStats =
  WordCount :: nat
  Duration :: nat

text \<open>
  \<open>transcribeFile\<close>. \<open>GetAudioInfo\<close> returns no error on any path, so the first error
  exit of the function is never taken. The deferred \<open>Cleanup\<close> runs on every exit after the
  audio has been prepared.
\<close>

definition transcribeFile ::
  "world \<Rightarrow> Service \<Rightarrow> store \<Rightarrow> path \<Rightarrow> (error + FileStats) \<times> store" where
  "transcribeFile w s files inputPath =
     (let duration = probe w inputPath;
          outputPath = getOutputPath s inputPath
      in case ensureModelDownloaded w s files of
           (Some err, files1) \<Rightarrow> (Inl (Wrapped ''model preparation failed'' err), files1)
         | (None, files1) \<Rightarrow>
             (case prepareAudioFile w s files1 inputPath of
                (Inl err, files2) \<Rightarrow> (Inl (Wrapped ''audio preparation failed'' err), files2)
              | (Inr (wavPath, needsCleanup), files2) \<Rightarrow>
                  (let deferred = (\<lambda>fs. if needsCleanup then Cleanup (audioProcessor s) fs wavPath
                                         else fs)
                   in case Transcribe w (whisperClient s) wavPath (Model (opts s)) of
                        Inl err \<Rightarrow> (Inl (Wrapped ''transcription failed'' err), deferred files2)
                      | Inr transcription \<Rightarrow>
                          (let wordCount = service_countWords transcription;
                               content = formatOutput s transcription inputPath
                           in if \<not> can_create w outputPath
                              then (Inl (Wrapped ''failed to write output file'' WriteFileFailed),
                                    deferred files2)
                              else (Inr \<lparr>WordCount = wordCount, Duration = duration\<rparr>,
                                    deferred (files2(outputPath \<mapsto> content)))))))"

text \<open>
  The statistics that \<open>TranscribeFiles\<close> keeps and prints; \<open>jobs\<close> records the files
  handed to \<open>transcribeFile\<close>, in order.
\<close>

record BatchStats =
  successCount :: nat
  failedCount :: nat
  totalWords :: nat
  totalDuration :: nat
  jobs :: "path list"

definition noStats :: BatchStats where
  "noStats = \<lparr>successCount = 0, failedCount = 0, totalWords = 0, totalDuration = 0, jobs = []\<rparr>"

text \<open>The loop of \<open>TranscribeFiles\<close> over the discovered files.\<close>

fun processFiles ::
  "world \<Rightarrow> Service \<Rightarrow> path list \<Rightarrow> BatchStats \<times> store \<Rightarrow> BatchStats \<times> store" where
  "processFiles w s [] (st, files) = (st, files)"
| "processFiles w s (file # rest) (st, files) =
     (case transcribeFile w s files file of
        (Inl err, files') \<Rightarrow>
          processFiles w s rest
            (st\<lparr>failedCount := failedCount st + 1, jobs := jobs st @ [file]\<rparr>, files')
      | (Inr fileStats, files') \<Rightarrow>
          processFiles w s rest
            (st\<lparr>successCount := successCount st + 1,
                totalWords := totalWords st + WordCount fileStats,
                totalDuration := totalDuration st + Duration fileStats,
                jobs := jobs st @ [file]\<rparr>, files'))"

text \<open>
  \<open>TranscribeFiles\<close>: the returned error, the statistics of the summary and the store
  after the run. What the function prints depends on \<open>Quiet\<close> and \<open>Verbose\<close> only and is
  left out.
\<close>

definition TranscribeFiles ::
  "world \<Rightarrow> Service \<Rightarrow> store \<Rightarrow> path list \<Rightarrow> error option \<times> BatchStats \<times> store" where
  "TranscribeFiles w s files inputs =
     (case findAudioFiles w s inputs of
        Inl err \<Rightarrow> (Some (Wrapped ''failed to find audio files'' err), noStats, files)
      | Inr audioFiles \<Rightarrow>
          if length audioFiles = 0 then (Some NoAudioFilesFound, noStats, files)
          else (case processFiles w s audioFiles (noStats, files) of
                  (st, files') \<Rightarrow> (None, st, files')))"

section \<open>Example inputs\<close>

text \<open>
  A machine with three input files, a model server whose transfer breaks, a converter and
  an engine that work; the options are the defaults of the command line with the model
  \<open>tiny\<close> and the cache directory \<open>/cache\<close>.
\<close>

definition example_options :: Options where
  "example_options =
     \<lparr>Model = ''tiny'', OutputDir = [], Workers = 4, Recursive = False, Timestamps = False,
      Prompt = [], Language = ''auto'', Format_opt = ''txt'', CacheDir = ''/cache'',
      Quiet = False, Verbose = False\<rparr>"

definition example_world :: world where
  "example_world =
     \<lparr>disk = (\<lambda>p. if p = ''/music/a.mp3'' \<or> p = ''/music/stereo.wav'' \<or> p = ''/music/notes.txt''
                  then Some FileNode else None),
      homeDir = ''/home/user'',
      http_get = (\<lambda>url. Response 200 ''ggml'' False),
      can_create = (\<lambda>p. True),
      ffmpeg = (\<lambda>p. FfmpegDone (Some ''RIFF'')),
      whisper = (\<lambda>m a. Some (''whisper_init'' @ [CHR 0x0A] @
                               ''[00:00:00.000 --> 00:00:02.000]   Hello world.'')),
      probe = (\<lambda>p. 2000000000)\<rparr>"

definition example_service :: Service where
  "example_service = NewService example_world ''whisper-cli'' example_options"

text \<open>The same machine with a converter that fails on \<open>a.mp3\<close>.\<close>

definition flaky_world :: world where
  "flaky_world =
     example_world\<lparr>ffmpeg := (\<lambda>p. if p = ''/music/a.mp3'' then FfmpegError
                                    else FfmpegDone (Some ''RIFF''))\<rparr>"


text \<open>A store in which the model is cached and a transcript of \<open>a.mp3\<close> exists already.\<close>

definition cached_store :: store where
  "cached_store =
     [''/cache/ggml-tiny.bin'' \<mapsto> ''ggml'', ''/music/a.txt'' \<mapsto> ''earlier transcript'']"

section \<open>Notions used in the statements\<close>

text \<open>
  A string is blank when it holds white space only, and tight when it is not empty and
  neither starts nor ends with white space (so that \<open>strings.TrimSpace\<close> leaves it alone).
\<close>

definition blank :: "string \<Rightarrow> bool" where
  "blank s \<longleftrightarrow> (\<forall>c \<in> set s. isSpace c)"

definition tight :: "string \<Rightarrow> bool" where
  "tight s \<longleftrightarrow> s \<noteq> [] \<and> \<not> isSpace (hd s) \<and> \<not> isSpace (last s)"

text \<open>
  The results of the jobs of a batch, as the summary has to account for them: each file is
  handed to \<open>transcribeFile\<close> with the store that the jobs before it have left, whatever
  their results were; the list holds the result of every job, in the order of the files,
  next to the store after the last job. \<open>succeeded\<close> and \<open>failed\<close> pick the statistics of
  the jobs that returned some and the errors of the others.
\<close>

fun jobResults :: "world \<Rightarrow> Service \<Rightarrow> store \<Rightarrow> path list \<Rightarrow> (error + FileStats) list \<times> store" where
  "jobResults w s files [] = ([], files)"
| "jobResults w s files (file # rest) =
     (case transcribeFile w s files file of
        (r, files1) \<Rightarrow>
          (case jobResults w s files1 rest of (rs, files2) \<Rightarrow> (r # rs, files2)))"

fun succeeded :: "(error + FileStats) list \<Rightarrow> FileStats list" where
  "succeeded [] = []"
| "succeeded (Inl err # rs) = succeeded rs"
| "succeeded (Inr fileStats # rs) = fileStats # succeeded rs"

fun failed :: "(error + FileStats) list \<Rightarrow> error list" where
  "failed [] = []"
| "failed (Inl err # rs) = err # failed rs"
| "failed (Inr fileStats # rs) = failed rs"

text \<open>
  The engine's output, as the claim about the transcript sees it. Every line is of one of
  two kinds. A marked line holds a closing bracket: the text before the first one is the
  marker (a timestamp such as \<open>[00:00:00.000 --> 00:00:02.000\<close>, or anything else), the
  text after it is the content, which may be empty, with white space around it; the five
  fields of \<open>Marked\<close> are the white space before the marker, the marker, the white space
  before the content, the content and the white space after it. An unmarked line holds no
  closing bracket. Every output is the text of a list of such lines
  joined by line feeds (lemma \<open>engineOutput_complete\<close>). A line is timestamped when
  \<open>[00:\<close> occurs in it; the header is the lines before the first timestamped one. The
  texts the parse keeps are the contents of the marked lines after the header that are not
  empty, and \<open>spaced\<close> joins them by single spaces.
\<close>

datatype outputLine =
    Marked string string string string string
  | Unmarked string

fun lineText :: "outputLine \<Rightarrow> string" where
  "lineText (Marked ind m p t tr) = ind @ m @ '']'' @ p @ t @ tr"
| "lineText (Unmarked t) = t"

fun wellFormed :: "outputLine \<Rightarrow> bool" where
  "wellFormed (Marked ind m p t tr) \<longleftrightarrow>
     blank ind \<and> blank p \<and> blank tr \<and> (t = [] \<or> tight t) \<and>
     CHR '']'' \<notin> set m \<and> CHR 0x0A \<notin> set (ind @ m @ p @ t @ tr)"
| "wellFormed (Unmarked t) \<longleftrightarrow> CHR '']'' \<notin> set t \<and> CHR 0x0A \<notin> set t"

fun engineOutput :: "outputLine list \<Rightarrow> string" where
  "engineOutput [] = []"
| "engineOutput [l] = lineText l"
| "engineOutput (l # l' # ls) = lineText l @ [CHR 0x0A] @ engineOutput (l' # ls)"

definition timestamped :: "outputLine \<Rightarrow> bool" where
  "timestamped l \<longleftrightarrow> (\<exists>n < length (lineText l). take 4 (drop n (lineText l)) = ''[00:'')"

fun keptText :: "outputLine \<Rightarrow> string" where
  "keptText (Marked ind m p t tr) = t"
| "keptText (Unmarked t) = []"

definition keptTexts :: "outputLine list \<Rightarrow> string list" where
  "keptTexts ls =
     filter (\<lambda>t. t \<noteq> []) (map keptText (dropWhile (\<lambda>l. \<not> timestamped l) ls))"

fun spaced :: "string list \<Rightarrow> string" where
  "spaced [] = []"
| "spaced [t] = t"
| "spaced (t # u # ts) = t @ '' '' @ spaced (u # ts)"

text \<open>
  The text that the loop of \<open>Transcribe\<close> takes from a trimmed line: what follows the
  first closing bracket, trimmed (\<open>strings.SplitN(line, "]", 2)\<close>), and nothing when the
  line has none.
\<close>

definition lineContent :: "string \<Rightarrow> string" where
  "lineContent line =
     (case cutFrom [] line '']'' of
        None \<Rightarrow> []
      | Some (marker, rest) \<Rightarrow> strings_TrimSpace rest)"

text \<open>
  A sentence is significant when it has at least \<open>minWordsForSignificantSentence\<close> words.
  \<open>paragraphChunks\<close> lists the values that \<open>sentencesForFinalChunk\<close> takes in the
  rounds of the outer loop of \<open>Format\<close>, \<open>chunkText\<close> is the paragraph made of one of
  them, and \<open>addParagraph\<close> is the write to the builder.
\<close>

definition significant :: "TextFormatter \<Rightarrow> string \<Rightarrow> bool" where
  "significant f sentence \<longleftrightarrow> countWords sentence \<ge> minWordsForSignificantSentence f"

definition chunkText :: "string list \<Rightarrow> string" where
  "chunkText chunk = cleanText (strings_Join chunk '' '')"

function paragraphChunks :: "TextFormatter \<Rightarrow> string list \<Rightarrow> string list list" where
  "paragraphChunks f remaining =
     (if remaining = [] then []
      else let final = finalChunk f remaining
           in if final = [] then []
              else final # paragraphChunks f (drop (length final) remaining))"
  by pat_completeness auto
termination
  by (relation "measure (\<lambda>(f, remaining). length remaining)") (auto simp: neq_Nil_conv)

definition addParagraph :: "string \<Rightarrow> string \<Rightarrow> string" where
  "addParagraph out text0 = (if length out > 0 then out @ [CHR 0x0A, CHR 0x0A] else out) @ text0"

text \<open>Five sentences of five words each.\<close>

definition five_sentences :: string where
  "five_sentences = ''The cat sat down here. A dog ran off fast. We all went home then. It was a long day. Now we can rest well.''"

text \<open>
  The white-space-normalized input: trimmed, every run of \<open>\s\<close> collapsed to one space
  (the first two steps of \<open>splitIntoSentences\<close>).
\<close>

definition normalizeSpace :: "string \<Rightarrow> string" where
  "normalizeSpace text0 = replaceWhitespace (strings_TrimSpace text0)"

text \<open>
  An input on which the clean-up of \<open>cleanText\<close> finds nothing to do: its normalized
  form has no space before a comma or a terminal mark and no terminal mark twice in a row.
\<close>

definition cleanInput :: "string \<Rightarrow> bool" where
  "cleanInput text0 \<longleftrightarrow>
     (let n = normalizeSpace text0
      in \<not> strings_Contains n '' ,'' \<and> \<not> strings_Contains n '' .'' \<and>
         \<not> strings_Contains n '' !'' \<and> \<not> strings_Contains n '' ?'' \<and>
         \<not> strings_Contains n ''..'' \<and> \<not> strings_Contains n ''!!'' \<and>
         \<not> strings_Contains n ''??'')"

text \<open>
  The white space of \<open>unicode.IsSpace\<close> beyond ASCII, as the byte sequences of its UTF-8
  encoding: U+0085, U+00A0, U+1680, U+2000 to U+200A, U+2028, U+2029, U+202F, U+205F and
  U+3000. \<open>strings.TrimSpace\<close> and \<open>strings.Fields\<close> take each of them for white space,
  which \<^const>\<open>strings_TrimSpace\<close> and \<^const>\<open>strings_Fields\<close> do not. A text is
  \<open>asciiSpaced\<close> when none of them occurs in it; the statements about the formatter and
  about the transcript are made for such texts, on which the functions of the model and
  of the library agree.
\<close>

definition unicodeSpaces :: "string list" where
  "unicodeSpaces =
     [[CHR 0xC2, CHR 0x85], [CHR 0xC2, CHR 0xA0], [CHR 0xE1, CHR 0x9A, CHR 0x80],
      [CHR 0xE2, CHR 0x80, CHR 0x80], [CHR 0xE2, CHR 0x80, CHR 0x81],
      [CHR 0xE2, CHR 0x80, CHR 0x82], [CHR 0xE2, CHR 0x80, CHR 0x83],
      [CHR 0xE2, CHR 0x80, CHR 0x84], [CHR 0xE2, CHR 0x80, CHR 0x85],
      [CHR 0xE2, CHR 0x80, CHR 0x86], [CHR 0xE2, CHR 0x80, CHR 0x87],
      [CHR 0xE2, CHR 0x80, CHR 0x88], [CHR 0xE2, CHR 0x80, CHR 0x89],
      [CHR 0xE2, CHR 0x80, CHR 0x8A], [CHR 0xE2, CHR 0x80, CHR 0xA8],
      [CHR 0xE2, CHR 0x80, CHR 0xA9], [CHR 0xE2, CHR 0x80, CHR 0xAF],
      [CHR 0xE2, CHR 0x81, CHR 0x9F], [CHR 0xE3, CHR 0x80, CHR 0x80]]"

definition asciiSpaced :: "string \<Rightarrow> bool" where
  "asciiSpaced s \<longleftrightarrow> list_all (\<lambda>u. \<not> strings_Contains s u) unicodeSpaces"

text \<open>
  The words and the sentences of a text as the specification words them. The words are
  the maximal runs of bytes that are not white space. The text is normalized by joining
  its words with single spaces. A sentence boundary lies at a space of the normalized text
  that follows a terminal mark and is followed by an upper-case letter; the sentences are
  the pieces between the boundaries, the marks attached to the sentence before. A text is
  \<open>plainSpaced\<close> when it holds no vertical tab and no white space beyond ASCII: then all
  its white space is of the class \<open>\s\<close> of the regular expressions of the formatter.
\<close>

fun wordsFrom :: "string \<Rightarrow> string \<Rightarrow> string list" where
  "wordsFrom cur [] = (if cur = [] then [] else [cur])"
| "wordsFrom cur (c # cs) =
     (if isSpace c then (if cur = [] then wordsFrom [] cs else cur # wordsFrom [] cs)
      else wordsFrom (cur @ [c]) cs)"

definition specWords :: "string \<Rightarrow> string list" where
  "specWords s = wordsFrom [] s"

fun sentencesFrom :: "string \<Rightarrow> string \<Rightarrow> string list" where
  "sentencesFrom cur [] = [cur]"
| "sentencesFrom cur (c # cs) =
     (if c = CHR '' '' \<and> cur \<noteq> [] \<and> isTerminal (last cur) \<and> cs \<noteq> [] \<and> isUpper (hd cs)
      then cur # sentencesFrom [] cs
      else sentencesFrom (cur @ [c]) cs)"

definition specSentences :: "string \<Rightarrow> string list" where
  "specSentences text0 =
     (if specWords text0 = [] then [] else sentencesFrom [] (spaced (specWords text0)))"

definition plainSpaced :: "string \<Rightarrow> bool" where
  "plainSpaced s \<longleftrightarrow> CHR 0x0B \<notin> set s \<and> asciiSpaced s"


definition tabbed_five :: string where
  "tabbed_five =
     ''The cat sat down here.'' @ [CHR 0x0B] @ ''A dog ran off fast.'' @ [CHR 0x0B] @
     ''We all went home then.'' @ [CHR 0x0B] @ ''It was a long day.'' @ [CHR 0x0B] @
     ''Now we can rest well.''"

definition lower_case_sentences :: string where
  "lower_case_sentences = ''the cat sat down here. a dog ran off fast. we all went home then. it was a long day. now we can rest well.''"

text \<open>The paragraphs of an output, rejoined with single spaces.\<close>

definition rejoinParagraphs :: "string \<Rightarrow> string" where
  "rejoinParagraphs out = strings_Join (strings_Split out [CHR 0x0A, CHR 0x0A]) '' ''"

text \<open>
  A string is single-spaced when each of its \<open>\s\<close> bytes is a space that no \<open>\s\<close>
  byte follows.
\<close>

fun singleSpaced :: "string \<Rightarrow> bool" where
  "singleSpaced [] = True"
| "singleSpaced (c # cs) =
     ((reSpace c \<longrightarrow> c = CHR '' '' \<and> (cs \<noteq> [] \<longrightarrow> \<not> reSpace (hd cs))) \<and> singleSpaced cs)"

definition newlineToSpace :: "char \<Rightarrow> char" where
  "newlineToSpace c = (if c = CHR 0x0A then CHR '' '' else c)"


section \<open>Properties of the service\<close>

lemmas path_defs =
  filepath_Join_def filepath_Clean_def filepath_Dir_def filepath_Base_def filepath_Ext_def
  strings_Split_def strings_TrimSuffix_def strings_ToLower_def lowerChar_def isUpper_def

lemma findModel_tiny:
  "findModel (AvailableModels m) ''tiny'' =
     Some (mkModel m ''tiny'' ''39 MB'' ''Fastest, least accurate'')"
  by (simp add: findModel_def AvailableModels_def mkModel_def)

lemma example_service_fields:
  "Model (opts example_service) = ''tiny''"
  "audioProcessor example_service = NewProcessor ''/opt/homebrew/bin/ffmpeg'' ''/tmp/ghospel''"
  "whisperClient example_service = \<lparr>whisperBinaryPath = ''whisper-cli'', modelsDir = ''/cache''\<rparr>"
  by (simp_all add: example_service_def NewService_def example_options_def)

lemma example_model_path:
  "Path (mkModel (modelManager example_service) ''tiny'' a b) = ''/cache/ggml-tiny.bin''"
  by (simp add: mkModel_def example_service_def NewService_def NewManager_def
      example_options_def path_defs)

lemma example_output_path: "getOutputPath example_service ''/music/a.mp3'' = ''/music/a.txt''"
  by (simp add: getOutputPath_def example_service_def NewService_def example_options_def path_defs)

lemma example_download_fails:
  "Download example_world (modelManager example_service) files ''tiny''
     = (if files ''/cache/ggml-tiny.bin'' = None
        then (Some (Wrapped ''download failed'' DownloadCopyFailed), files)
        else (None, files))"
proof -
  have g: "http_get example_world url = Response 200 ''ggml'' False" for url
    by (simp add: example_world_def)
  have c: "can_create example_world p" for p
    by (simp add: example_world_def)
  show ?thesis
    by (auto simp: Download_def findModel_tiny example_model_path Let_def g c)
qed

lemma example_find_a:
  "findAudioFiles example_world example_service [''/music/a.mp3''] = Inr [''/music/a.mp3'']"
  by (simp add: findAudioFiles_def example_world_def isAudioFile_def supportedExts_def
      filepath_Ext_def strings_ToLower_def lowerChar_def isUpper_def)

lemma example_find_notes:
  "findAudioFiles example_world example_service [''/music/notes.txt''] = Inr []"
  by (simp add: findAudioFiles_def example_world_def isAudioFile_def supportedExts_def
      filepath_Ext_def strings_ToLower_def lowerChar_def isUpper_def)

subsection \<open>Download\<close>

text \<open>
  C10. When \<open>Manager.Download\<close> returns an error, the store is what it was before the
  call, and no file is left at the cache path of the requested model: a transfer that
  breaks while it is copied has its partial file removed.
\<close>

theorem Download_error_leaves_store:
  assumes "Download w m files modelName = (Some err, files')"
  shows "files' = files \<and>
         (\<forall>targetModel. findModel (AvailableModels m) modelName = Some targetModel
            \<longrightarrow> files' (Path targetModel) = None)"
  using assms
  by (auto simp: Download_def Let_def split: option.splits http_result.splits if_splits)

theorem Download_error_leaves_store_witness:
  "Download example_world (modelManager example_service) [''/music/a.txt'' \<mapsto> ''earlier transcript''] ''tiny''
     = (Some (Wrapped ''download failed'' DownloadCopyFailed),
        [''/music/a.txt'' \<mapsto> ''earlier transcript''])
   \<and> snd (Download example_world (modelManager example_service)
             [''/music/a.txt'' \<mapsto> ''earlier transcript''] ''tiny'') ''/cache/ggml-tiny.bin'' = None"
proof -
  have h: "Download example_world (modelManager example_service)
             [''/music/a.txt'' \<mapsto> ''earlier transcript''] ''tiny''
     = (Some (Wrapped ''download failed'' DownloadCopyFailed),
        [''/music/a.txt'' \<mapsto> ''earlier transcript''])"
    by (simp add: example_download_fails)
  from Download_error_leaves_store [OF h] findModel_tiny [of "modelManager example_service"] h
  show ?thesis by (simp add: example_model_path)
qed

text \<open>
  Called one after another, as the loop of \<open>TranscribeFiles\<close> does, the requests for a
  model start at most one transfer that succeeds: once a call has returned without error the
  model is in the store, and any later call returns at once and leaves the store alone,
  whatever the server would answer.
\<close>

lemma ensureModelDownloaded_after_success:
  assumes "ensureModelDownloaded w s files = (None, files1)"
  shows "ensureModelDownloaded w' s files1 = (None, files1)"
  using assms
  by (auto simp: ensureModelDownloaded_def Download_def Let_def
      split: option.splits http_result.splits if_splits)

subsection \<open>Audio preparation\<close>

text \<open>
  C6. \<open>prepareAudioFile\<close> looks at the extension only: a path that ends in \<open>.wav\<close> is
  handed to the engine as it is, and the converter is not called, whatever the file holds
  (the source marks the missing check of sample rate and channels with a TODO).
\<close>

theorem prepareAudioFile_wav_by_extension:
  "prepareAudioFile w s files ''/music/stereo.wav'' = (Inr (''/music/stereo.wav'', False), files)"
  by (simp add: prepareAudioFile_def filepath_Ext_def strings_ToLower_def lowerChar_def isUpper_def)

theorem prepareAudioFile_wav_by_extension_witness:
  "prepareAudioFile example_world example_service cached_store ''/music/stereo.wav''
     = (Inr (''/music/stereo.wav'', False), cached_store)"
  using prepareAudioFile_wav_by_extension [of example_world example_service cached_store]
  by simp

subsection \<open>The batch\<close>

lemma processFiles_jobs:
  "processFiles w s fs (st, files) = (st', files') \<Longrightarrow>
     jobs st' = jobs st @ fs \<and>
     successCount st' + failedCount st' = successCount st + failedCount st + length fs"
proof (induction fs arbitrary: st files)
  case Nil
  then show ?case by simp
next
  case (Cons f fs)
  show ?case
  proof (cases "transcribeFile w s files f")
    case (Pair r files1)
    show ?thesis
    proof (cases r)
      case (Inl e)
      with Pair Cons.prems
      have "processFiles w s fs
              (st\<lparr>failedCount := failedCount st + 1, jobs := jobs st @ [f]\<rparr>, files1)
            = (st', files')"
        by simp
      from Cons.IH [OF this] show ?thesis by simp
    next
      case (Inr fstats)
      with Pair Cons.prems
      have "processFiles w s fs
              (st\<lparr>successCount := successCount st + 1,
                  totalWords := totalWords st + WordCount fstats,
                  totalDuration := totalDuration st + Duration fstats,
                  jobs := jobs st @ [f]\<rparr>, files1)
            = (st', files')"
        by simp
      from Cons.IH [OF this] show ?thesis by simp
    qed
  qed
qed

lemma findAudioFilesFrom_unreadable:
  "\<exists>p \<in> set inputs. disk w p = None \<Longrightarrow> \<exists>e. findAudioFilesFrom w s acc inputs = Inl e"
proof (induction inputs arbitrary: acc)
  case Nil
  then show ?case by simp
next
  case (Cons i inputs)
  show ?case
  proof (cases "disk w i")
    case None
    then show ?thesis by simp
  next
    case (Some n)
    with Cons.prems have ex: "\<exists>p \<in> set inputs. disk w p = None" by auto
    from Cons.IH [OF ex] Some show ?thesis
      by (cases n) (auto split: sum.splits)
  qed
qed

lemma example_job_fails:
  "transcribeFile example_world example_service Map.empty ''/music/a.mp3''
     = (Inl (Wrapped ''model preparation failed'' (Wrapped ''download failed'' DownloadCopyFailed)),
        Map.empty)"
  by (simp add: transcribeFile_def ensureModelDownloaded_def example_service_fields
      findModel_tiny example_download_fails example_model_path Let_def)

lemma example_parseOutput:
  "parseOutput (''whisper_init'' @ [CHR 0x0A] @
                ''[00:00:00.000 --> 00:00:02.000]   Hello world.'') = ''Hello world.''"
  by (simp add: parseOutput_def strings_Split_def strings_TrimSpace_def isSpace_def
      numeral_2_eq_2)

lemma example_Format: "Format NewTextFormatter ''Hello world.'' = ''Hello world.''"
  apply (simp add: Format_def strings_TrimSpace_def isSpace_def)
  apply (simp add: splitIntoSentences_def strings_TrimSpace_def isSpace_def reSpace_def
      isTerminal_def strings_Split_def finalChunk_def countWords_def NewTextFormatter_def
      cleanText_def Let_def)
  done

lemma jobResults_length: "length (fst (jobResults w s files fs)) = length fs"
proof (induction fs arbitrary: files)
  case Nil
  then show ?case by simp
next
  case (Cons f fs)
  obtain r files1 where t: "transcribeFile w s files f = (r, files1)"
    by (cases "transcribeFile w s files f") auto
  obtain rs files2 where j: "jobResults w s files1 fs = (rs, files2)"
    by (cases "jobResults w s files1 fs") auto
  from Cons.IH [of files1] j have "length rs = length fs" by simp
  with t j show ?case by simp
qed

lemma processFiles_results:
  "processFiles w s fs (st, files) =
     (st\<lparr>successCount := successCount st + length (succeeded (fst (jobResults w s files fs))),
         failedCount := failedCount st + length (failed (fst (jobResults w s files fs))),
         totalWords := totalWords st + sum_list (map WordCount (succeeded (fst (jobResults w s files fs)))),
         totalDuration := totalDuration st + sum_list (map Duration (succeeded (fst (jobResults w s files fs)))),
         jobs := jobs st @ fs\<rparr>,
      snd (jobResults w s files fs))"
proof (induction fs arbitrary: st files)
  case Nil
  then show ?case by simp
next
  case (Cons f fs)
  show ?case
  proof (cases "transcribeFile w s files f")
    case (Pair r files1)
    show ?thesis
    proof (cases r)
      case (Inl e)
      with Pair show ?thesis
        by (simp add: Cons.IH split: prod.splits)
    next
      case (Inr fstats)
      with Pair show ?thesis
        by (simp add: Cons.IH split: prod.splits)
    qed
  qed
qed


lemma flaky_world_fields:
  "disk flaky_world = disk example_world"
  "whisper flaky_world = whisper example_world"
  "can_create flaky_world = can_create example_world"
  "probe flaky_world = probe example_world"
  "ffmpeg flaky_world ''/music/a.mp3'' = FfmpegError"
  by (simp_all add: flaky_world_def)

lemma flaky_find:
  "findAudioFiles flaky_world example_service [''/music/a.mp3'', ''/music/stereo.wav'']
     = Inr [''/music/a.mp3'', ''/music/stereo.wav'']"
  by (simp add: findAudioFiles_def flaky_world_fields example_world_def isAudioFile_def
      supportedExts_def filepath_Ext_def strings_ToLower_def lowerChar_def isUpper_def)

lemma flaky_job_fails:
  "transcribeFile flaky_world example_service cached_store ''/music/a.mp3''
     = (Inl (Wrapped ''audio preparation failed''
              (Wrapped ''ffmpeg conversion failed'' FfmpegFailed)), cached_store)"
proof -
  have prep: "prepareAudioFile flaky_world example_service cached_store ''/music/a.mp3''
     = (Inl (Wrapped ''ffmpeg conversion failed'' FfmpegFailed), cached_store)"
    by (simp add: prepareAudioFile_def ConvertToWav_def example_service_fields
        NewProcessor_def path_defs Let_def flaky_world_fields)
       (simp add: example_world_def)
  show ?thesis
    by (simp add: transcribeFile_def ensureModelDownloaded_def example_service_fields(1)
        findModel_tiny example_model_path prep Let_def)
       (simp add: cached_store_def)
qed

lemma flaky_output_path:
  "getOutputPath example_service ''/music/stereo.wav'' = ''/music/stereo.txt''"
  by (simp add: getOutputPath_def example_service_def NewService_def example_options_def path_defs)

lemma flaky_job_succeeds:
  "transcribeFile flaky_world example_service cached_store ''/music/stereo.wav''
     = (Inr \<lparr>WordCount = 2, Duration = 2000000000\<rparr>,
        cached_store(''/music/stereo.txt'' \<mapsto>
          ''# Transcription of: stereo.wav'' @ [CHR 0x0A] @
          ''# Model: tiny'' @ [CHR 0x0A] @
          ''# Generated with Ghospel v0.1.0'' @ [CHR 0x0A, CHR 0x0A] @
          ''Hello world.'' @ [CHR 0x0A]))"
proof -
  have prep: "prepareAudioFile flaky_world example_service cached_store ''/music/stereo.wav''
     = (Inr (''/music/stereo.wav'', False), cached_store)"
    by (simp add: prepareAudioFile_def path_defs Let_def)
  have tr: "Transcribe flaky_world (whisperClient example_service)
              ''/music/stereo.wav'' ''tiny'' = Inr ''Hello world.''"
    using example_parseOutput
    by (simp add: Transcribe_def example_service_fields flaky_world_fields example_world_def)
  show ?thesis
    apply (simp add: transcribeFile_def ensureModelDownloaded_def example_service_fields(1)
        findModel_tiny example_model_path prep tr flaky_output_path Let_def)
    apply (simp add: cached_store_def example_service_fields
        formatOutput_def example_Format filepath_Base_def service_countWords_def
        strings_TrimSpace_def isSpace_def flaky_world_fields)
    apply (simp add: example_world_def)
    done
qed

lemma flaky_results:
  "jobResults flaky_world example_service cached_store [''/music/a.mp3'', ''/music/stereo.wav'']
     = ([Inl (Wrapped ''audio preparation failed''
               (Wrapped ''ffmpeg conversion failed'' FfmpegFailed)),
         Inr \<lparr>WordCount = 2, Duration = 2000000000\<rparr>],
        cached_store(''/music/stereo.txt'' \<mapsto>
          ''# Transcription of: stereo.wav'' @ [CHR 0x0A] @
          ''# Model: tiny'' @ [CHR 0x0A] @
          ''# Generated with Ghospel v0.1.0'' @ [CHR 0x0A, CHR 0x0A] @
          ''Hello world.'' @ [CHR 0x0A]))"
  by (simp add: flaky_job_fails flaky_job_succeeds)

text \<open>
  C5, as the code has it. An input path that cannot be read makes discovery fail, and a
  failed discovery ends the run with an error before any file is handed to
  \<open>transcribeFile\<close>: no job is recorded and the store is untouched. A discovery that finds
  no audio file ends the run with the error \<open>no audio files found\<close> in the same way. In
  every other case the run returns no error, whatever the jobs return: every discovered
  file is handed to \<open>transcribeFile\<close> in order, each with the store its predecessors have
  left; the summary counts the jobs that returned an error as failed and the others as
  successful, and adds up the words and the durations of the successful ones.
\<close>

theorem TranscribeFiles_error_policy:
  "((\<exists>p \<in> set inputs. disk w p = None) \<longrightarrow> (\<exists>e. findAudioFiles w s inputs = Inl e)) \<and>
   (case findAudioFiles w s inputs of
      Inl e \<Rightarrow>
        TranscribeFiles w s files inputs
          = (Some (Wrapped ''failed to find audio files'' e), noStats, files)
    | Inr audioFiles \<Rightarrow>
        if audioFiles = []
        then TranscribeFiles w s files inputs = (Some NoAudioFilesFound, noStats, files)
        else (case jobResults w s files audioFiles of
                (results, files') \<Rightarrow>
                   length results = length audioFiles \<and>
                   TranscribeFiles w s files inputs =
                     (None,
                      \<lparr>successCount = length (succeeded results),
                       failedCount = length (failed results),
                       totalWords = sum_list (map WordCount (succeeded results)),
                       totalDuration = sum_list (map Duration (succeeded results)),
                       jobs = audioFiles\<rparr>,
                      files')))"
proof
  show "(\<exists>p \<in> set inputs. disk w p = None) \<longrightarrow> (\<exists>e. findAudioFiles w s inputs = Inl e)"
    unfolding findAudioFiles_def using findAudioFilesFrom_unreadable by blast
next
  show "case findAudioFiles w s inputs of
      Inl e \<Rightarrow>
        TranscribeFiles w s files inputs
          = (Some (Wrapped ''failed to find audio files'' e), noStats, files)
    | Inr audioFiles \<Rightarrow>
        if audioFiles = []
        then TranscribeFiles w s files inputs = (Some NoAudioFilesFound, noStats, files)
        else (case jobResults w s files audioFiles of
                (results, files') \<Rightarrow>
                   length results = length audioFiles \<and>
                   TranscribeFiles w s files inputs =
                     (None,
                      \<lparr>successCount = length (succeeded results),
                       failedCount = length (failed results),
                       totalWords = sum_list (map WordCount (succeeded results)),
                       totalDuration = sum_list (map Duration (succeeded results)),
                       jobs = audioFiles\<rparr>,
                      files'))"
  proof (cases "findAudioFiles w s inputs")
    case (Inl e)
    then show ?thesis by (simp add: TranscribeFiles_def)
  next
    case (Inr audioFiles)
    show ?thesis
    proof (cases "audioFiles = []")
      case True
      with Inr show ?thesis by (simp add: TranscribeFiles_def)
    next
      case False
      obtain results files' where j: "jobResults w s files audioFiles = (results, files')"
        by (cases "jobResults w s files audioFiles") auto
      have l: "length results = length audioFiles"
        using jobResults_length [of w s files audioFiles] j by simp
      from Inr False j l show ?thesis
        by (simp add: TranscribeFiles_def processFiles_results noStats_def)
    qed
  qed
qed

theorem TranscribeFiles_error_policy_witness:
  "disk flaky_world ''/music/a.mp3'' \<noteq> None \<and> disk flaky_world ''/music/stereo.wav'' \<noteq> None \<and>
   findAudioFiles flaky_world example_service [''/music/a.mp3'', ''/music/stereo.wav'']
     = Inr [''/music/a.mp3'', ''/music/stereo.wav''] \<and>
   fst (jobResults flaky_world example_service cached_store
          [''/music/a.mp3'', ''/music/stereo.wav''])
     = [Inl (Wrapped ''audio preparation failed''
               (Wrapped ''ffmpeg conversion failed'' FfmpegFailed)),
        Inr \<lparr>WordCount = 2, Duration = 2000000000\<rparr>] \<and>
   TranscribeFiles flaky_world example_service cached_store
       [''/music/a.mp3'', ''/music/stereo.wav'']
     = (None,
        \<lparr>successCount = 1, failedCount = 1, totalWords = 2, totalDuration = 2000000000,
         jobs = [''/music/a.mp3'', ''/music/stereo.wav'']\<rparr>,
        cached_store(''/music/stereo.txt'' \<mapsto>
          ''# Transcription of: stereo.wav'' @ [CHR 0x0A] @
          ''# Model: tiny'' @ [CHR 0x0A] @
          ''# Generated with Ghospel v0.1.0'' @ [CHR 0x0A, CHR 0x0A] @
          ''Hello world.'' @ [CHR 0x0A]))"
proof -
  have d: "disk flaky_world ''/music/a.mp3'' \<noteq> None" "disk flaky_world ''/music/stereo.wav'' \<noteq> None"
    by (simp_all add: flaky_world_fields example_world_def)
  from TranscribeFiles_error_policy
         [of "[''/music/a.mp3'', ''/music/stereo.wav'']" flaky_world example_service cached_store]
  show ?thesis
    using d by (simp del: jobResults.simps add: flaky_find flaky_results)
qed

text \<open>
  The claim C5 as it is written fails: every input path of this run can be read, and the
  run still ends with an error, because the only input is not an audio file.
\<close>

theorem no_audio_files_aborts_run:
  "disk example_world ''/music/notes.txt'' = Some FileNode \<and>
   TranscribeFiles example_world example_service Map.empty [''/music/notes.txt'']
     = (Some NoAudioFilesFound, noStats, Map.empty)"
  by (simp add: TranscribeFiles_def example_find_notes) (simp add: example_world_def)

lemma example_job_succeeds:
  "transcribeFile example_world example_service cached_store ''/music/a.mp3''
     = (Inr \<lparr>WordCount = 2, Duration = 2000000000\<rparr>,
        cached_store(''/music/a.txt'' \<mapsto>
          ''# Transcription of: a.mp3'' @ [CHR 0x0A] @
          ''# Model: tiny'' @ [CHR 0x0A] @
          ''# Generated with Ghospel v0.1.0'' @ [CHR 0x0A, CHR 0x0A] @
          ''Hello world.'' @ [CHR 0x0A]))"
proof -
  have prep: "prepareAudioFile example_world example_service cached_store ''/music/a.mp3''
     = (Inr (''/tmp/ghospel/a_converted.wav'', True),
        cached_store(''/tmp/ghospel/a_converted.wav'' \<mapsto> ''RIFF''))"
    by (simp add: prepareAudioFile_def ConvertToWav_def example_service_fields
        NewProcessor_def path_defs Let_def)
       (simp add: example_world_def)
  have tr: "Transcribe example_world (whisperClient example_service)
              ''/tmp/ghospel/a_converted.wav'' ''tiny'' = Inr ''Hello world.''"
    using example_parseOutput by (simp add: Transcribe_def example_service_fields example_world_def)
  show ?thesis
    apply (simp add: transcribeFile_def ensureModelDownloaded_def example_service_fields(1)
        findModel_tiny example_model_path prep tr example_output_path Let_def)
    apply (simp add: cached_store_def example_service_fields Cleanup_def NewProcessor_def
        formatOutput_def example_Format filepath_Base_def service_countWords_def
        strings_TrimSpace_def isSpace_def)
    apply (simp add: example_world_def fun_upd_twist)
    done
qed

text \<open>
  C3. The service has no step that looks for an existing transcript: its options carry no
  force flag, and \<open>TranscribeFiles\<close> hands every discovered file to \<open>transcribeFile\<close>.
  Here the transcript of \<open>/music/a.mp3\<close> exists before the run; the file is processed all
  the same and the transcript is written again.
\<close>

theorem existing_output_is_overwritten:
  "cached_store (getOutputPath example_service ''/music/a.mp3'') = Some ''earlier transcript'' \<and>
   (case TranscribeFiles example_world example_service cached_store [''/music/a.mp3''] of
      (err, st, files') \<Rightarrow>
        err = None \<and> jobs st = [''/music/a.mp3''] \<and> successCount st = 1 \<and>
        files' ''/music/a.txt'' =
          Some (''# Transcription of: a.mp3'' @ [CHR 0x0A] @
                ''# Model: tiny'' @ [CHR 0x0A] @
                ''# Generated with Ghospel v0.1.0'' @ [CHR 0x0A, CHR 0x0A] @
                ''Hello world.'' @ [CHR 0x0A]))"
  by (simp add: TranscribeFiles_def example_find_a example_job_succeeds noStats_def
      example_output_path)
     (simp add: cached_store_def)

section \<open>The loop over the engine's output\<close>

subsection \<open>Trimmed strings\<close>

lemma TrimSpace_tight: "strings_TrimSpace s \<noteq> [] \<Longrightarrow> tight (strings_TrimSpace s)"
proof -
  assume ne: "strings_TrimSpace s \<noteq> []"
  let ?a = "dropWhile isSpace s"
  let ?b = "dropWhile isSpace (rev ?a)"
  from ne have b: "?b \<noteq> []" by (simp add: strings_TrimSpace_def)
  have a: "?a \<noteq> []"
  proof
    assume e: "?a = []"
    have "?b = []" unfolding e by simp
    with b show False by blast
  qed
  have l: "\<not> isSpace (hd ?b)" using b by (simp add: hd_dropWhile)
  have "\<not> isSpace (hd ?a)" using a by (simp add: hd_dropWhile)
  then have "\<not> isSpace (last (rev ?a))" using a by (simp add: last_rev)
  moreover have "last ?b = last (rev ?a)"
    using b by (metis (no_types) last_appendR takeWhile_dropWhile_id)
  ultimately have "\<not> isSpace (last ?b)" by simp
  with l b show ?thesis
    by (simp add: tight_def strings_TrimSpace_def hd_rev last_rev)
qed

lemma TrimSpace_append_spaces:
  assumes "tight s" and "\<forall>c \<in> set ws. isSpace c"
  shows "strings_TrimSpace (s @ ws) = s"
proof -
  from assms(1) obtain c cs where s: "s = c # cs" and c: "\<not> isSpace c"
    by (cases s) (auto simp: tight_def)
  from assms(1) have l: "\<not> isSpace (last s)" and ne: "s \<noteq> []" by (auto simp: tight_def)
  have "dropWhile isSpace (rev ws @ rev s) = rev s"
  proof -
    have "dropWhile isSpace (rev ws @ rev s) = dropWhile isSpace (rev s)"
      using assms(2) by (simp add: dropWhile_append)
    also have "\<dots> = rev s" using l ne by (cases "rev s") (auto simp: last_rev hd_rev)
    finally show ?thesis .
  qed
  then show ?thesis using s c by (simp add: strings_TrimSpace_def)
qed

lemma tight_TrimSpace_id: "tight s \<Longrightarrow> strings_TrimSpace s = s"
  using TrimSpace_append_spaces [of s "[]"] by simp

lemma tight_Join:
  "ts \<noteq> [] \<Longrightarrow> \<forall>t \<in> set ts. tight t \<Longrightarrow> tight (strings_Join ts sep)"
proof (induction ts sep rule: strings_Join.induct)
  case (1 sep)
  then show ?case by simp
next
  case (2 x sep)
  then show ?case by simp
next
  case (3 x y zs sep)
  then have "tight (strings_Join (y # zs) sep)" and "tight x" by simp_all
  then show ?case by (auto simp: tight_def)
qed

subsection \<open>The loop of \<open>Transcribe\<close> as a list function\<close>

lemma concat_spaced:
  "ts \<noteq> [] \<Longrightarrow> concat (map (\<lambda>t. t @ '' '') ts) = strings_Join ts '' '' @ '' ''"
  by (induction ts "'' ''" rule: strings_Join.induct) simp_all

lemma Contains_cutFrom:
  "sep \<noteq> [] \<Longrightarrow> strings_Contains s sep \<longleftrightarrow> cutFrom cur s sep \<noteq> None"
  by (induction s arbitrary: cur) auto

lemma parseLines_texts:
  "parseLines ls inT b =
     b @ concat (map (\<lambda>t. t @ '' '')
           (filter (\<lambda>t. t \<noteq> [])
              (map lineContent
                 (if inT then map strings_TrimSpace ls
                  else dropWhile (\<lambda>line. \<not> strings_Contains line ''[00:'')
                         (map strings_TrimSpace ls)))))"
proof (induction ls arbitrary: inT b)
  case Nil
  then show ?case by simp
next
  case (Cons l ls)
  let ?line = "strings_TrimSpace l"
  show ?case
  proof (cases "strings_Contains ?line ''[00:'' \<or> inT")
    case False
    then show ?thesis using Cons.IH [of False b] by simp
  next
    case True
    show ?thesis
    proof (cases "cutFrom [] ?line '']''")
      case None
      then have "\<not> strings_Contains ?line '']''"
        using Contains_cutFrom [of "'']''" ?line "[]"] by simp
      with True None show ?thesis
        using Cons.IH [of True b] by (auto simp: lineContent_def)
    next
      case (Some ab)
      obtain a r where ab: "ab = (a, r)" by (cases ab)
      from Some have c: "strings_Contains ?line '']''"
        using Contains_cutFrom [of "'']''" ?line "[]"] by simp
      have sp: "strings_SplitN ?line '']'' 2 = [a, r]"
        using Some ab by (simp add: numeral_2_eq_2)
      show ?thesis
        using True c sp Some ab Cons.IH [of True]
        by (auto simp: lineContent_def Let_def)
    qed
  qed
qed

lemma lineContent_tight: "lineContent l \<noteq> [] \<Longrightarrow> tight (lineContent l)"
  by (auto simp: lineContent_def TrimSpace_tight split: option.splits)

section \<open>Properties of the formatter\<close>

subsection \<open>The paragraphs as chunks of sentences\<close>

declare paragraphChunks.simps [simp del]
declare formatLoop.simps [simp del]

lemma formatLoop_chunks:
  "formatLoop f sentences idx out =
     foldl addParagraph out (map chunkText (paragraphChunks f (drop idx sentences)))"
proof (induction f sentences idx out rule: formatLoop.induct)
  case (1 f sentences idx out)
  show ?case
  proof (cases "idx < length sentences")
    case False
    then show ?thesis
      by (simp add: formatLoop.simps [of f sentences idx] paragraphChunks.simps [of f "[]"])
  next
    case True
    let ?final = "finalChunk f (drop idx sentences)"
    show ?thesis
    proof (cases "?final = []")
      case e: True
      with True show ?thesis
        by (simp add: formatLoop.simps [of f sentences idx]
            paragraphChunks.simps [of f "drop idx sentences"])
    next
      case ne: False
      have ih: "formatLoop f sentences (idx + length ?final) (addParagraph out (chunkText ?final))
                  = foldl addParagraph (addParagraph out (chunkText ?final))
                      (map chunkText (paragraphChunks f (drop (idx + length ?final) sentences)))"
        using "1.IH" [OF True refl _ refl refl] ne
        by (simp add: addParagraph_def [abs_def] chunkText_def [abs_def])
      have "formatLoop f sentences idx out
              = formatLoop f sentences (idx + length ?final) (addParagraph out (chunkText ?final))"
        using True ne
        by (simp add: formatLoop.simps [of f sentences idx out] Let_def addParagraph_def chunkText_def)
      also note ih
      also have "foldl addParagraph (addParagraph out (chunkText ?final))
                      (map chunkText (paragraphChunks f (drop (idx + length ?final) sentences)))
                  = foldl addParagraph out
                        (map chunkText (paragraphChunks f (drop idx sentences)))"
        using True ne
        by (simp add: paragraphChunks.simps [of f "drop idx sentences"] Let_def add.commute)
      finally show ?thesis .
    qed
  qed
qed

lemma buildChunk_step:
  "buildChunk f (s # ss) (acc, wc0, sig0) =
     (if wc0 + countWords s \<ge> targetWordCount f
      then (acc @ [s], wc0 + countWords s, if significant f s then sig0 + 1 else sig0)
      else buildChunk f ss
             (acc @ [s], wc0 + countWords s, if significant f s then sig0 + 1 else sig0))"
  by (simp add: Let_def significant_def)

lemma truncateChunk_step:
  "truncateChunk f (s # chunk) (acc, cnt) =
     (if significant f s
      then (if cnt + 1 \<ge> maxSentencesPerChunk f then acc @ [s]
            else truncateChunk f chunk (acc @ [s], cnt + 1))
      else truncateChunk f chunk (acc @ [s], cnt))"
  by (simp add: Let_def significant_def)

declare buildChunk.simps(2) [simp del] truncateChunk.simps(2) [simp del]

lemma buildChunk_take:
  "\<exists>n. fst (buildChunk f ss (acc, wc0, sig0)) = acc @ take n ss
     \<and> snd (snd (buildChunk f ss (acc, wc0, sig0)))
           = sig0 + length (filter (significant f) (take n ss))
     \<and> (ss \<noteq> [] \<longrightarrow> 0 < n)"
proof (induction ss arbitrary: acc wc0 sig0)
  case Nil
  then show ?case by simp
next
  case (Cons s ss)
  let ?sig = "if significant f s then sig0 + 1 else sig0"
  show ?case
  proof (cases "wc0 + countWords s \<ge> targetWordCount f")
    case True
    then have "buildChunk f (s # ss) (acc, wc0, sig0)
                 = (acc @ [s], wc0 + countWords s, ?sig)"
      by (simp only: buildChunk_step if_True)
    then show ?thesis by (intro exI [of _ "Suc 0"]) simp
  next
    case False
    from Cons.IH [of "acc @ [s]" "wc0 + countWords s" ?sig]
    obtain n where
      b: "fst (buildChunk f ss (acc @ [s], wc0 + countWords s, ?sig)) = (acc @ [s]) @ take n ss"
         "snd (snd (buildChunk f ss (acc @ [s], wc0 + countWords s, ?sig)))
            = ?sig + length (filter (significant f) (take n ss))"
      by blast
    have "buildChunk f (s # ss) (acc, wc0, sig0)
            = buildChunk f ss (acc @ [s], wc0 + countWords s, ?sig)"
      using False by (simp only: buildChunk_step if_False)
    with b show ?thesis by (intro exI [of _ "Suc n"]) simp
  qed
qed

lemma truncateChunk_take:
  "cnt < maxSentencesPerChunk f \<Longrightarrow>
   \<exists>n. truncateChunk f chunk (acc, cnt) = acc @ take n chunk
     \<and> cnt + length (filter (significant f) (take n chunk)) \<le> maxSentencesPerChunk f
     \<and> (chunk \<noteq> [] \<longrightarrow> 0 < n)"
proof (induction chunk arbitrary: acc cnt)
  case Nil
  then show ?case by simp
next
  case (Cons s chunk)
  show ?case
  proof (cases "significant f s")
    case False
    from Cons.IH [OF Cons.prems, of "acc @ [s]"] obtain n where
      t: "truncateChunk f chunk (acc @ [s], cnt) = (acc @ [s]) @ take n chunk"
      and c: "cnt + length (filter (significant f) (take n chunk)) \<le> maxSentencesPerChunk f"
      by blast
    have "truncateChunk f (s # chunk) (acc, cnt) = acc @ take (Suc n) (s # chunk)"
      using False t by (simp add: truncateChunk_step)
    moreover have "cnt + length (filter (significant f) (take (Suc n) (s # chunk)))
                     \<le> maxSentencesPerChunk f"
      using False c by simp
    ultimately show ?thesis by (intro exI [of _ "Suc n"]) simp
  next
    case True
    show ?thesis
    proof (cases "cnt + 1 \<ge> maxSentencesPerChunk f")
      case t: True
      have "truncateChunk f (s # chunk) (acc, cnt) = acc @ take 1 (s # chunk)"
        using True t by (simp add: truncateChunk_step)
      moreover have "cnt + length (filter (significant f) (take 1 (s # chunk)))
                       \<le> maxSentencesPerChunk f"
        using True Cons.prems by simp
      ultimately show ?thesis by (intro exI [of _ 1]) simp
    next
      case f: False
      then have lt: "cnt + 1 < maxSentencesPerChunk f" by simp
      from Cons.IH [OF lt, of "acc @ [s]"] obtain n where
        t: "truncateChunk f chunk (acc @ [s], cnt + 1) = (acc @ [s]) @ take n chunk"
        and c: "cnt + 1 + length (filter (significant f) (take n chunk)) \<le> maxSentencesPerChunk f"
        by blast
      have "truncateChunk f (s # chunk) (acc, cnt) = acc @ take (Suc n) (s # chunk)"
        using True f t by (simp add: truncateChunk_step)
      moreover have "cnt + length (filter (significant f) (take (Suc n) (s # chunk)))
                       \<le> maxSentencesPerChunk f"
        using True c by simp
      ultimately show ?thesis by (intro exI [of _ "Suc n"]) simp
    qed
  qed
qed

lemma finalChunk_take:
  assumes "0 < maxSentencesPerChunk f"
  shows "\<exists>n. finalChunk f ss = take n ss
           \<and> length (filter (significant f) (take n ss)) \<le> maxSentencesPerChunk f
           \<and> (ss \<noteq> [] \<longrightarrow> 0 < n \<and> n \<le> length ss)"
proof -
  from buildChunk_take [of f ss "[]" 0 0] obtain n where
    b1: "fst (buildChunk f ss ([], 0, 0)) = take n ss"
    and b2: "snd (snd (buildChunk f ss ([], 0, 0))) = length (filter (significant f) (take n ss))"
    and n: "ss \<noteq> [] \<longrightarrow> 0 < n"
    by auto
  obtain wc where
    b: "buildChunk f ss ([], 0, 0) = (take n ss, wc, length (filter (significant f) (take n ss)))"
    using b1 b2 by (cases "buildChunk f ss ([], 0, 0)") auto
  let ?m = "min n (length ss)"
  have tm: "take n ss = take ?m ss" by (simp add: min_def)
  show ?thesis
  proof (cases "length (filter (significant f) (take n ss)) > maxSentencesPerChunk f")
    case False
    with b have "finalChunk f ss = take ?m ss" by (simp add: finalChunk_def tm)
    moreover have "ss \<noteq> [] \<longrightarrow> 0 < ?m \<and> ?m \<le> length ss" using n by (cases ss) auto
    ultimately show ?thesis using False tm by (intro exI [of _ ?m]) auto
  next
    case True
    from truncateChunk_take [OF assms, of "take n ss" "[]"] obtain k where
      t: "truncateChunk f (take n ss) ([], 0) = take k (take n ss)"
      and c: "length (filter (significant f) (take k (take n ss))) \<le> maxSentencesPerChunk f"
      and k: "take n ss \<noteq> [] \<longrightarrow> 0 < k"
      by auto
    let ?j = "min k ?m"
    have tj: "take k (take n ss) = take ?j ss" by (simp add: min_def)
    have t': "truncateChunk f (take n ss) ([], 0) = take ?j ss" by (simp only: t tj)
    have "finalChunk f ss = take ?j ss" using b True t' by (simp add: finalChunk_def)
    moreover have "ss \<noteq> [] \<longrightarrow> 0 < ?j \<and> ?j \<le> length ss"
      using n k by (cases ss) auto
    ultimately show ?thesis using c tj by (intro exI [of _ ?j]) auto
  qed
qed

lemma paragraphChunks_props:
  "0 < maxSentencesPerChunk f \<Longrightarrow> concat (paragraphChunks f ss) = ss \<and>
         (\<forall>c \<in> set (paragraphChunks f ss).
            c \<noteq> [] \<and> length (filter (significant f) c) \<le> maxSentencesPerChunk f) \<and>
         (ss \<noteq> [] \<longrightarrow> paragraphChunks f ss \<noteq> [])"
proof (induction f ss rule: paragraphChunks.induct)
  case (1 f0 remaining)
  show ?case
  proof (cases "remaining = []")
    case True
    then show ?thesis by (simp add: paragraphChunks.simps [of f0 "[]"])
  next
    case False
    from finalChunk_take [of f0 remaining] "1.prems" obtain n where
      fc: "finalChunk f0 remaining = take n remaining"
      and c: "length (filter (significant f0) (take n remaining)) \<le> maxSentencesPerChunk f0"
      and n: "0 < n" "n \<le> length remaining"
      using False by blast
    have ne: "finalChunk f0 remaining \<noteq> []" using fc n False by (cases remaining) auto
    have len: "length (finalChunk f0 remaining) = n" using fc n by simp
    have unf: "paragraphChunks f0 remaining
                 = take n remaining # paragraphChunks f0 (drop n remaining)"
      using False ne fc len by (simp add: paragraphChunks.simps [of f0 remaining] Let_def)
    from "1.IH" [OF False refl ne] "1.prems" len
    have ih: "concat (paragraphChunks f0 (drop n remaining)) = drop n remaining"
      "\<forall>c \<in> set (paragraphChunks f0 (drop n remaining)).
          c \<noteq> [] \<and> length (filter (significant f0) c) \<le> maxSentencesPerChunk f0"
      by simp_all
    show ?thesis using unf ih c n False by (cases remaining) auto
  qed
qed

subsection \<open>What the clean-up keeps\<close>

lemma TrimSpace_Nil_iff: "strings_TrimSpace s = [] \<longleftrightarrow> blank s"
proof
  assume "blank s"
  then have d: "dropWhile isSpace s = []" by (simp add: blank_def)
  show "strings_TrimSpace s = []" unfolding strings_TrimSpace_def d by simp
next
  assume e: "strings_TrimSpace s = []"
  then have "dropWhile isSpace (rev (dropWhile isSpace s)) = []"
    by (simp add: strings_TrimSpace_def)
  then have a: "\<forall>c \<in> set (dropWhile isSpace s). isSpace c" by simp
  have "dropWhile isSpace s = []"
  proof (cases "dropWhile isSpace s")
    case Nil
    then show ?thesis .
  next
    case (Cons c cs)
    then have "\<not> isSpace c" by (metis hd_dropWhile list.sel(1) list.distinct(1))
    with a Cons show ?thesis by simp
  qed
  then show "blank s" by (simp add: blank_def)
qed

lemma tight_not_blank: "tight s \<Longrightarrow> \<not> blank s"
  by (cases s) (auto simp: tight_def blank_def)

lemma not_blank_TrimSpace_tight: "\<not> blank s \<Longrightarrow> tight (strings_TrimSpace s)"
  by (simp add: TrimSpace_tight TrimSpace_Nil_iff)

lemma reSpace_isSpace: "reSpace c \<Longrightarrow> isSpace c"
  by (auto simp: reSpace_def isSpace_def)

lemma in_set_dropWhile: "c \<in> set xs \<Longrightarrow> \<not> P c \<Longrightarrow> c \<in> set (dropWhile P xs)"
  by (induction xs) auto

lemma replaceWhitespace_keeps:
  "c \<in> set s \<Longrightarrow> \<not> reSpace c \<Longrightarrow> c \<in> set (replaceWhitespace s)"
  by (induction s rule: replaceWhitespace.induct) (auto simp: in_set_dropWhile)

lemma replaceWhitespace_set:
  "c \<in> set (replaceWhitespace s) \<Longrightarrow> c = CHR '' '' \<or> (c \<in> set s \<and> \<not> reSpace c)"
  by (induction s rule: replaceWhitespace.induct) (auto split: if_splits dest: set_dropWhileD)

lemma ReplaceAll_keeps:
  "c \<in> set s \<Longrightarrow> c \<noteq> a \<Longrightarrow> c \<in> set (strings_ReplaceAll s [a, b] [b])"
proof (induction s "[a, b]" "[b]" rule: strings_ReplaceAll.induct)
  case 1
  then show ?case by simp
next
  case (2 x xs)
  show ?case
  proof (cases "take 2 (x # xs) = [a, b]")
    case True
    then obtain ys where xs: "xs = b # ys" and x: "x = a"
      by (cases xs) auto
    with 2 True show ?thesis by auto
  next
    case False
    with 2 show ?thesis by auto
  qed
qed

lemma ReplaceAll_set:
  "c \<in> set (strings_ReplaceAll s [a, b] [b]) \<Longrightarrow> c \<in> set s"
proof (induction s "[a, b]" "[b]" rule: strings_ReplaceAll.induct)
  case 1
  then show ?case by simp
next
  case (2 x xs)
  show ?case
  proof (cases "take 2 (x # xs) = [a, b]")
    case True
    then obtain ys where xs: "xs = b # ys" and x: "x = a"
      by (cases xs) auto
    with 2 True show ?thesis by auto
  next
    case False
    with 2 show ?thesis by auto
  qed
qed

lemma replaceRepeated_set: "set (replaceRepeated m s) = set s"
proof (induction m s rule: replaceRepeated.induct)
  case (1 m)
  then show ?case by simp
next
  case (2 m c cs)
  show ?case
  proof (cases "c = m \<and> cs \<noteq> [] \<and> hd cs = m")
    case True
    have "set (dropWhile (\<lambda>x. x = m) cs) \<subseteq> set cs" by (auto dest: set_dropWhileD)
    moreover have "set cs \<subseteq> insert m (set (dropWhile (\<lambda>x. x = m) cs))"
      by (auto intro: in_set_dropWhile)
    ultimately show ?thesis using True 2 by auto
  next
    case False
    with 2 show ?thesis by auto
  qed
qed

lemma TrimSpace_set: "set (strings_TrimSpace s) \<subseteq> set s"
  by (auto simp: strings_TrimSpace_def dest!: set_dropWhileD)

lemma cleanText_not_blank:
  assumes "\<not> blank s"
  shows "tight (cleanText s)"
proof -
  from assms obtain c where c: "c \<in> set s" "\<not> isSpace c" by (auto simp: blank_def)
  then have nr: "\<not> reSpace c" and nsp: "c \<noteq> CHR '' ''"
    using reSpace_isSpace by (auto simp: isSpace_def)
  let ?t1 = "replaceWhitespace s"
  let ?t2 = "strings_ReplaceAll ?t1 '' ,'' '',''"
  let ?t3 = "strings_ReplaceAll ?t2 '' .'' ''.''"
  let ?t4 = "strings_ReplaceAll ?t3 '' !'' ''!''"
  let ?t5 = "strings_ReplaceAll ?t4 '' ?'' ''?''"
  let ?t8 = "replaceRepeated (CHR ''?'') (replaceRepeated (CHR ''!'') (replaceRepeated (CHR ''.'') ?t5))"
  have "c \<in> set ?t1" using c nr by (simp add: replaceWhitespace_keeps)
  then have "c \<in> set ?t2" using nsp by (rule ReplaceAll_keeps)
  then have "c \<in> set ?t3" using nsp by (rule ReplaceAll_keeps)
  then have "c \<in> set ?t4" using nsp by (rule ReplaceAll_keeps)
  then have "c \<in> set ?t5" using nsp by (rule ReplaceAll_keeps)
  then have "c \<in> set ?t8" by (simp add: replaceRepeated_set)
  then have "\<not> blank ?t8" using c by (auto simp: blank_def)
  then show ?thesis by (simp add: cleanText_def Let_def not_blank_TrimSpace_tight)
qed

lemma cleanText_no_newline: "CHR 0x0A \<notin> set (cleanText s)"
proof
  assume "CHR 0x0A \<in> set (cleanText s)"
  then have "CHR 0x0A \<in> set (replaceWhitespace s)"
    unfolding cleanText_def Let_def
    by (auto simp: replaceRepeated_set dest!: ReplaceAll_set subsetD [OF TrimSpace_set])
  then show False by (auto dest!: replaceWhitespace_set simp: reSpace_def)
qed

lemma Join_not_blank:
  "ts \<noteq> [] \<Longrightarrow> \<forall>t \<in> set ts. \<not> blank t \<Longrightarrow> \<not> blank (strings_Join ts sep)"
  by (induction ts sep rule: strings_Join.induct) (auto simp: blank_def)

lemma Join_Cons:
  "strings_Join (p # ps) sep = (if ps = [] then p else p @ sep @ strings_Join ps sep)"
  by (cases ps) simp_all

lemma foldl_addParagraph:
  "\<forall>p \<in> set ps. p \<noteq> [] \<Longrightarrow>
   foldl addParagraph out ps =
     (if out = [] then strings_Join ps [CHR 0x0A, CHR 0x0A]
      else if ps = [] then out
      else out @ [CHR 0x0A, CHR 0x0A] @ strings_Join ps [CHR 0x0A, CHR 0x0A])"
proof (induction ps arbitrary: out)
  case Nil
  then show ?case by simp
next
  case (Cons p ps)
  let ?sep = "[CHR 0x0A, CHR 0x0A]"
  let ?o = "addParagraph out p"
  from Cons.prems have p: "p \<noteq> []" and ps: "\<forall>p \<in> set ps. p \<noteq> []" by simp_all
  have o: "?o \<noteq> []" using p by (simp add: addParagraph_def)
  have "foldl addParagraph out (p # ps) = foldl addParagraph ?o ps" by simp
  also have "\<dots> = (if ps = [] then ?o else ?o @ ?sep @ strings_Join ps ?sep)"
    using Cons.IH [OF ps, of ?o] o by simp
  also have "\<dots> = (if out = [] then strings_Join (p # ps) ?sep
                     else out @ ?sep @ strings_Join (p # ps) ?sep)"
    by (simp add: Join_Cons addParagraph_def)
  finally show ?case by simp
qed

subsection \<open>Splitting and joining\<close>

lemma splitFrom_not_Nil: "splitFrom cur s sep \<noteq> []"
  by (induction cur s sep rule: splitFrom.induct) auto

lemma Join_splitFrom: "strings_Join (splitFrom cur s sep) sep = rev cur @ s"
proof (induction cur s sep rule: splitFrom.induct)
  case (1 cur sep)
  then show ?case by simp
next
  case (2 cur c cs sep)
  show ?case
  proof (cases "sep \<noteq> [] \<and> take (length sep) (c # cs) = sep")
    case True
    then have "c # cs = sep @ drop (length sep) (c # cs)"
      by (metis append_take_drop_id)
    with 2 True show ?thesis
      by (simp add: Join_Cons splitFrom_not_Nil del: drop_Suc_Cons take_Suc_Cons) 
  next
    case False
    with 2 show ?thesis by auto
  qed
qed

lemma Join_Split: "strings_Join (strings_Split s sep) sep = s"
  by (simp add: strings_Split_def Join_splitFrom)

lemma splitFrom_skip:
  "n \<notin> set p \<Longrightarrow> splitFrom cur (p @ rest) (n # sep') = splitFrom (rev p @ cur) rest (n # sep')"
  by (induction p arbitrary: cur) auto

lemma Split_Join:
  "ps \<noteq> [] \<Longrightarrow> \<forall>p \<in> set ps. n \<notin> set p \<Longrightarrow>
   strings_Split (strings_Join ps (n # sep')) (n # sep') = ps"
proof (induction ps "n # sep'" rule: strings_Join.induct)
  case 1
  then show ?case by simp
next
  case (2 x)
  then show ?case
    using splitFrom_skip [of n x "[]" "[]" sep'] by (simp add: strings_Split_def)
next
  case (3 x y zs)
  let ?J = "strings_Join (y # zs) (n # sep')"
  have "splitFrom [] (x @ (n # sep') @ ?J) (n # sep') = splitFrom (rev x) ((n # sep') @ ?J) (n # sep')"
    using 3 splitFrom_skip [of n x "[]" "(n # sep') @ ?J" sep'] by simp
  also have "\<dots> = x # splitFrom [] ?J (n # sep')" by simp
  also have "\<dots> = x # y # zs" using 3 by (simp add: strings_Split_def)
  finally show ?case by (simp add: strings_Split_def)
qed

lemma set_Join: "set (strings_Join ps sep) \<subseteq> \<Union> (set ` set ps) \<union> set sep"
  by (induction ps sep rule: strings_Join.induct) auto

lemma replaceWhitespace_hd_last:
  "s \<noteq> [] \<Longrightarrow> \<not> reSpace (last s) \<Longrightarrow>
     replaceWhitespace s \<noteq> [] \<and> last (replaceWhitespace s) = last s"
proof (induction s rule: replaceWhitespace.induct)
  case 1
  then show ?case by simp
next
  case (2 c cs)
  show ?case
  proof (cases "reSpace c")
    case True
    with 2 have cs: "cs \<noteq> []" by auto
    let ?d = "dropWhile reSpace cs"
    have lcs: "\<not> reSpace (last cs)" using 2 cs by simp
    then have d: "?d \<noteq> []" using cs by (metis dropWhile_eq_Nil_conv last_in_set)
    have "last ?d = last cs" using d by (metis last_appendR takeWhile_dropWhile_id)
    with "2.IH"(1) [OF True d] lcs True cs show ?thesis by simp
  next
    case False
    with 2 show ?thesis by (cases cs) auto
  qed
qed

lemma tight_replaceWhitespace: "tight s \<Longrightarrow> tight (replaceWhitespace s)"
proof -
  assume t: "tight s"
  then obtain c cs where s: "s = c # cs" and c: "\<not> isSpace c" by (cases s) (auto simp: tight_def)
  from t have l: "\<not> reSpace (last s)" using reSpace_isSpace by (auto simp: tight_def)
  from c have "\<not> reSpace c" using reSpace_isSpace by auto
  then have "hd (replaceWhitespace s) = c" using s by simp
  with replaceWhitespace_hd_last [OF _ l] s c t show ?thesis by (auto simp: tight_def)
qed

lemma replaceSentenceRegex_cases:
  "replaceSentenceRegex (c # cs) = c # replaceSentenceRegex cs \<or>
   (\<exists>marks blanks u rest3.
      c # cs = marks @ blanks @ u # rest3 \<and> marks \<noteq> [] \<and> hd marks = c \<and>
      (\<forall>m \<in> set marks. isTerminal m) \<and> blanks \<noteq> [] \<and> (\<forall>b \<in> set blanks. reSpace b) \<and>
      isUpper u \<and>
      replaceSentenceRegex (c # cs) = marks @ [CHR 0x0A, u] @ replaceSentenceRegex rest3)"
proof (cases "isTerminal c")
  case False
  then show ?thesis by simp
next
  case True
  define marks where "marks = takeWhile isTerminal (c # cs)"
  define rest1 where "rest1 = dropWhile isTerminal (c # cs)"
  define blanks where "blanks = takeWhile reSpace rest1"
  define rest2 where "rest2 = dropWhile reSpace rest1"
  have unf: "replaceSentenceRegex (c # cs) =
     (case rest2 of
        [] \<Rightarrow> c # replaceSentenceRegex cs
      | u # rest3 \<Rightarrow>
          if blanks \<noteq> [] \<and> isUpper u
          then marks @ [CHR 0x0A, u] @ replaceSentenceRegex rest3
          else c # replaceSentenceRegex cs)"
    unfolding marks_def rest1_def blanks_def rest2_def
    using True replaceSentenceRegex.simps(2) [of c cs] by (simp only: Let_def if_True)
  show ?thesis
  proof (cases rest2)
    case Nil
    then show ?thesis using unf by simp
  next
    case (Cons u rest3)
    show ?thesis
    proof (cases "blanks \<noteq> [] \<and> isUpper u")
      case False
      then show ?thesis using unf Cons by auto
    next
      case m: True
      have "c # cs = marks @ rest1" by (simp only: marks_def rest1_def takeWhile_dropWhile_id)
      moreover have "rest1 = blanks @ rest2"
        by (simp only: blanks_def rest2_def takeWhile_dropWhile_id)
      ultimately have dec: "c # cs = marks @ blanks @ u # rest3" using Cons by simp
      have r: "replaceSentenceRegex (c # cs) = marks @ [CHR 0x0A, u] @ replaceSentenceRegex rest3"
        using unf Cons m by simp
      have mk: "marks \<noteq> []" "hd marks = c" using True by (simp_all add: marks_def)
      have "\<forall>m \<in> set marks. isTerminal m" by (auto simp: marks_def dest: set_takeWhileD)
      moreover have "\<forall>b \<in> set blanks. reSpace b" by (auto simp: blanks_def dest: set_takeWhileD)
      ultimately show ?thesis using dec r mk m by blast
    qed
  qed
qed

lemma replaceSentenceRegex_hd_last:
  "s \<noteq> [] \<Longrightarrow>
     replaceSentenceRegex s \<noteq> [] \<and> hd (replaceSentenceRegex s) = hd s
     \<and> last (replaceSentenceRegex s) = last s"
proof (induction "length s" arbitrary: s rule: less_induct)
  case less
  from less.prems obtain c cs where s: "s = c # cs" by (cases s) auto
  from replaceSentenceRegex_cases [of c cs] show ?case
  proof (elim disjE exE conjE)
    assume e: "replaceSentenceRegex (c # cs) = c # replaceSentenceRegex cs"
    show ?thesis
    proof (cases "cs = []")
      case True
      with e s show ?thesis by simp
    next
      case False
      from less.hyps [of cs] s False
      have "replaceSentenceRegex cs \<noteq> []" "last (replaceSentenceRegex cs) = last cs" by simp_all
      with e s False show ?thesis by simp
    qed
  next
    fix marks blanks u rest3
    assume dec: "c # cs = marks @ blanks @ u # rest3"
      and mk: "marks \<noteq> []" "hd marks = c"
      and r: "replaceSentenceRegex (c # cs) = marks @ [CHR 0x0A, u] @ replaceSentenceRegex rest3"
    show ?thesis
    proof (cases "rest3 = []")
      case True
      with dec mk r s show ?thesis by simp
    next
      case False
      have "length rest3 < length s" using dec s by (metis length_append length_Cons
            add_lessD1 less_add_Suc2 not_add_less2 not_less_eq trans_less_add2 linorder_neqE_nat)
      from less.hyps [OF this False]
      have "replaceSentenceRegex rest3 \<noteq> []" "last (replaceSentenceRegex rest3) = last rest3"
        by simp_all
      with dec mk r s False show ?thesis by simp
    qed
  qed
qed

subsection \<open>The paragraphs of the output\<close>

lemma splitIntoSentences_props:
  assumes "\<not> blank text0"
  shows "splitIntoSentences text0 \<noteq> [] \<and> (\<forall>s \<in> set (splitIntoSentences text0). tight s)"
proof -
  define text1 where "text1 = replaceWhitespace (strings_TrimSpace text0)"
  define text2 where "text2 = replaceSentenceRegex text1"
  define raw where "raw = strings_Split text2 [CHR 0x0A]"
  define sentences where "sentences = filter (\<lambda>s. s \<noteq> []) (map strings_TrimSpace raw)"
  have unf: "splitIntoSentences text0
               = (if length sentences \<le> 1 \<and> length raw = 1 then [text2] else sentences)"
    by (simp add: splitIntoSentences_def Let_def text1_def text2_def raw_def sentences_def)
  have t1: "tight text1"
    unfolding text1_def using assms by (intro tight_replaceWhitespace not_blank_TrimSpace_tight)
  then have ne1: "text1 \<noteq> []" by (auto simp: tight_def)
  from replaceSentenceRegex_hd_last [OF ne1] t1 have t2: "tight text2"
    by (simp add: text2_def tight_def)
  have ts: "\<forall>s \<in> set sentences. tight s"
    by (auto simp: sentences_def TrimSpace_tight)
  have "sentences \<noteq> []"
  proof -
    from t2 have c: "hd text2 \<in> set text2" "\<not> isSpace (hd text2)" by (auto simp: tight_def)
    then have "hd text2 \<noteq> CHR 0x0A" by (auto simp: isSpace_def)
    moreover have "hd text2 \<in> set (strings_Join raw [CHR 0x0A])"
      using c by (simp add: raw_def Join_Split)
    ultimately obtain p where p: "p \<in> set raw" "hd text2 \<in> set p"
      using set_Join [of raw "[CHR 0x0A]"] by auto
    with c have "\<not> blank p" by (auto simp: blank_def)
    then have "strings_TrimSpace p \<noteq> []" by (simp add: TrimSpace_Nil_iff)
    with p have "strings_TrimSpace p \<in> set sentences" by (simp add: sentences_def)
    then show ?thesis by auto
  qed
  with ts t2 show ?thesis by (simp add: unf)
qed

lemma chunkText_tight:
  "chunk \<noteq> [] \<Longrightarrow> \<forall>s \<in> set chunk. tight s \<Longrightarrow> tight (chunkText chunk)"
  unfolding chunkText_def
  by (intro cleanText_not_blank Join_not_blank) (auto dest: tight_not_blank)

lemma Format_paragraphs:
  assumes "\<not> blank text0" and "0 < maxSentencesPerChunk f"
  shows "Format f text0 =
           strings_Join (map chunkText (paragraphChunks f (splitIntoSentences text0)))
             [CHR 0x0A, CHR 0x0A]"
proof -
  let ?ss = "splitIntoSentences text0"
  let ?chunks = "paragraphChunks f ?ss"
  from splitIntoSentences_props [OF assms(1)]
  have ne: "?ss \<noteq> []" and ts: "\<forall>s \<in> set ?ss. tight s" by simp_all
  from paragraphChunks_props [OF assms(2), of ?ss] ne
  have cc: "concat ?chunks = ?ss" and cne: "\<forall>c \<in> set ?chunks. c \<noteq> []" and chne: "?chunks \<noteq> []"
    by simp_all
  have "\<forall>c \<in> set ?chunks. \<forall>s \<in> set c. tight s"
  proof (intro ballI)
    fix c s assume "c \<in> set ?chunks" "s \<in> set c"
    then have "s \<in> set (concat ?chunks)" by auto
    with cc ts show "tight s" by simp
  qed
  with cne have pt: "\<forall>p \<in> set (map chunkText ?chunks). tight p"
    by (auto intro: chunkText_tight)
  then have pne: "\<forall>p \<in> set (map chunkText ?chunks). p \<noteq> []" by (auto simp: tight_def)
  have "formatLoop f ?ss 0 [] = strings_Join (map chunkText ?chunks) [CHR 0x0A, CHR 0x0A]"
    using foldl_addParagraph [OF pne, of "[]"] by (simp add: formatLoop_chunks)
  moreover have "tight (strings_Join (map chunkText ?chunks) [CHR 0x0A, CHR 0x0A])"
    using pt chne by (intro tight_Join) auto
  ultimately show ?thesis
    using assms(1) ne by (simp add: Format_def TrimSpace_Nil_iff tight_TrimSpace_id)
qed


lemma splitIntoSentences_blank: "blank text0 \<Longrightarrow> splitIntoSentences text0 = [[]]"
proof -
  assume "blank text0"
  then have e: "strings_TrimSpace text0 = []" by (simp add: TrimSpace_Nil_iff)
  have "strings_TrimSpace [] = []" by (simp add: strings_TrimSpace_def)
  then show ?thesis
    unfolding splitIntoSentences_def e by (simp add: strings_Split_def)
qed

lemma Format_five_chunks:
  assumes "splitIntoSentences text0 = [s1, s2, s3, s4, s5]"
    and "\<forall>s \<in> set [s1, s2, s3, s4, s5]. countWords s = 5"
  shows "strings_Split (Format NewTextFormatter text0) [CHR 0x0A, CHR 0x0A]
           = [cleanText (strings_Join [s1, s2, s3, s4] '' ''), cleanText s5]"
proof -
  let ?f = NewTextFormatter
  have nb: "\<not> blank text0" using assms(1) splitIntoSentences_blank [of text0] by auto
  have m: "0 < maxSentencesPerChunk ?f" by (simp add: NewTextFormatter_def)
  have f: "targetWordCount ?f = 50" "maxSentencesPerChunk ?f = 4"
    by (simp_all add: NewTextFormatter_def)
  have sg: "significant ?f s1" "significant ?f s2" "significant ?f s3" "significant ?f s4"
    "significant ?f s5"
    using assms(2) by (simp_all add: significant_def NewTextFormatter_def)
  have cw: "countWords s1 = 5" "countWords s2 = 5" "countWords s3 = 5" "countWords s4 = 5"
    "countWords s5 = 5"
    using assms(2) by simp_all
  have b: "buildChunk ?f [s1, s2, s3, s4, s5] ([], 0, 0) = ([s1, s2, s3, s4, s5], 25, 5)"
    by (simp add: buildChunk_step cw sg f)
  have t: "truncateChunk ?f [s1, s2, s3, s4, s5] ([], 0) = [s1, s2, s3, s4]"
    by (simp add: truncateChunk_step sg f)
  have c1: "finalChunk ?f [s1, s2, s3, s4, s5] = [s1, s2, s3, s4]"
    by (simp add: finalChunk_def b t f)
  have c2: "finalChunk ?f [s5] = [s5]"
    by (simp add: finalChunk_def buildChunk_step cw sg f)
  have "paragraphChunks ?f [s5] = [[s5]]"
    by (simp add: paragraphChunks.simps [of ?f "[s5]"] c2 paragraphChunks.simps [of ?f "[]"])
  then have pc: "paragraphChunks ?f [s1, s2, s3, s4, s5] = [[s1, s2, s3, s4], [s5]]"
    by (simp add: paragraphChunks.simps [of ?f "[s1, s2, s3, s4, s5]"] c1)
  have "Format ?f text0 = strings_Join [chunkText [s1, s2, s3, s4], chunkText [s5]] [CHR 0x0A, CHR 0x0A]"
    using Format_paragraphs [OF nb m] by (simp add: assms(1) pc)
  then have "strings_Split (Format ?f text0) [CHR 0x0A, CHR 0x0A]
               = [chunkText [s1, s2, s3, s4], chunkText [s5]]"
    using Split_Join [of "[chunkText [s1, s2, s3, s4], chunkText [s5]]" "CHR 0x0A" "[CHR 0x0A]"]
    by (simp add: chunkText_def cleanText_no_newline)
  then show ?thesis by (simp add: chunkText_def)
qed

subsection \<open>Words\<close>

lemma Fields_blank: "blank s \<Longrightarrow> strings_Fields s = []"
  by (induction s) (auto simp: blank_def)

lemma Fields_dropWhile:
  "(\<And>c. P c \<Longrightarrow> isSpace c) \<Longrightarrow> strings_Fields (dropWhile P s) = strings_Fields s"
  by (induction s) auto

lemma Fields_word:
  "\<forall>c \<in> set w. \<not> isSpace c \<Longrightarrow> w \<noteq> [] \<Longrightarrow> r = [] \<or> isSpace (hd r) \<Longrightarrow>
     strings_Fields (w @ r) = w # strings_Fields r"
proof -
  assume w: "\<forall>c \<in> set w. \<not> isSpace c" "w \<noteq> []" and r: "r = [] \<or> isSpace (hd r)"
  then obtain c cs where wc: "w = c # cs" by (cases w) auto
  have t: "takeWhile (\<lambda>x. \<not> isSpace x) (cs @ r) = cs"
    using w r wc by (cases r) (auto simp: takeWhile_append)
  have d: "dropWhile (\<lambda>x. \<not> isSpace x) (cs @ r) = r"
    using w r wc by (cases r) (auto simp: dropWhile_append)
  show ?thesis using w wc t d by simp
qed

lemma word_split:
  "\<exists>w r. s = w @ r \<and> (\<forall>c \<in> set w. \<not> isSpace c) \<and> (r = [] \<or> isSpace (hd r))"
proof -
  let ?w = "takeWhile (\<lambda>x. \<not> isSpace x) s"
  let ?r = "dropWhile (\<lambda>x. \<not> isSpace x) s"
  have "s = ?w @ ?r" by simp
  moreover have "\<forall>c \<in> set ?w. \<not> isSpace c" by (auto dest: set_takeWhileD)
  moreover have "?r = [] \<or> isSpace (hd ?r)"
    using hd_dropWhile [of "\<lambda>x. \<not> isSpace x" s] by auto
  ultimately show ?thesis by blast
qed

lemma Fields_append_space:
  "isSpace c \<Longrightarrow> strings_Fields (a @ c # b) = strings_Fields a @ strings_Fields b"
proof (induction "length a" arbitrary: a rule: less_induct)
  case less
  show ?case
  proof (cases a)
    case Nil
    with less.prems show ?thesis by simp
  next
    case (Cons x xs)
    show ?thesis
    proof (cases "isSpace x")
      case True
      with Cons less show ?thesis by simp
    next
      case False
      from word_split [of a] obtain w r where
        a: "a = w @ r" and w: "\<forall>c \<in> set w. \<not> isSpace c" and r: "r = [] \<or> isSpace (hd r)"
        by blast
      have wne: "w \<noteq> []" using a Cons False r by (cases w) auto
      have "strings_Fields (a @ c # b) = strings_Fields (w @ (r @ c # b))" by (simp add: a)
      also have "\<dots> = w # strings_Fields (r @ c # b)"
      proof -
        have "r @ c # b = [] \<or> isSpace (hd (r @ c # b))"
          using r less.prems by (cases r) auto
        with w wne show ?thesis by (rule Fields_word)
      qed
      also have "strings_Fields (r @ c # b) = strings_Fields r @ strings_Fields b"
        using less.hyps [of r] less.prems a wne by simp
      also have "w # (strings_Fields r @ strings_Fields b) = strings_Fields (w @ r) @ strings_Fields b"
        using Fields_word [OF w wne r] by simp
      finally show ?thesis by (simp add: a)
    qed
  qed
qed

lemma Fields_append_spaces:
  "\<forall>c \<in> set ws. isSpace c \<Longrightarrow> ws \<noteq> [] \<Longrightarrow>
     strings_Fields (a @ ws @ b) = strings_Fields a @ strings_Fields b"
proof (induction ws arbitrary: a)
  case Nil
  then show ?case by simp
next
  case (Cons c ws)
  show ?case
  proof (cases "ws = []")
    case True
    with Cons.prems show ?thesis by (simp add: Fields_append_space)
  next
    case False
    have "strings_Fields (a @ (c # ws) @ b) = strings_Fields a @ strings_Fields (ws @ b)"
      using Cons.prems by (simp add: Fields_append_space)
    also have "strings_Fields (ws @ b) = strings_Fields b"
      using Cons.IH [of "[]"] Cons.prems False by simp
    finally show ?thesis .
  qed
qed

lemma Fields_Join:
  "\<forall>c \<in> set sep. isSpace c \<Longrightarrow> sep \<noteq> [] \<Longrightarrow>
     strings_Fields (strings_Join xs sep) = concat (map strings_Fields xs)"
  by (induction xs sep rule: strings_Join.induct) (simp_all add: Fields_append_spaces)

lemma Fields_TrimSpace: "strings_Fields (strings_TrimSpace s) = strings_Fields s"
proof -
  let ?a = "dropWhile isSpace s"
  let ?ws = "rev (takeWhile isSpace (rev ?a))"
  have "?a = rev (dropWhile isSpace (rev ?a)) @ ?ws"
    by (metis rev_append rev_rev_ident takeWhile_dropWhile_id)
  moreover have ws: "\<forall>c \<in> set ?ws. isSpace c" by (auto dest: set_takeWhileD)
  ultimately have "strings_Fields ?a = strings_Fields (strings_TrimSpace s @ ?ws @ [])"
    by (simp add: strings_TrimSpace_def)
  also have "\<dots> = strings_Fields (strings_TrimSpace s)"
  proof (cases "?ws = []")
    case True
    then show ?thesis by simp
  next
    case False
    from Fields_append_spaces [OF ws False, of "strings_TrimSpace s" "[]"] show ?thesis by simp
  qed
  finally show ?thesis by (simp add: Fields_dropWhile)
qed

lemma replaceWhitespace_word:
  "\<forall>c \<in> set w. \<not> reSpace c \<Longrightarrow> replaceWhitespace (w @ r) = w @ replaceWhitespace r"
  by (induction w) auto

lemma replaceWhitespace_hd_space:
  "r \<noteq> [] \<Longrightarrow> isSpace (hd r) \<Longrightarrow>
     replaceWhitespace r \<noteq> [] \<and> isSpace (hd (replaceWhitespace r))"
  by (cases r) (auto simp: isSpace_def)

lemma Fields_replaceWhitespace: "strings_Fields (replaceWhitespace s) = strings_Fields s"
proof (induction "length s" arbitrary: s rule: less_induct)
  case less
  show ?case
  proof (cases s)
    case Nil
    then show ?thesis by simp
  next
    case (Cons x xs)
    show ?thesis
    proof (cases "isSpace x")
      case True
      show ?thesis
      proof (cases "reSpace x")
        case r: True
        have "length (dropWhile reSpace xs) < length s"
          using Cons by (simp add: length_dropWhile_le le_imp_less_Suc)
        from less.hyps [OF this]
        have "strings_Fields (replaceWhitespace (dropWhile reSpace xs)) = strings_Fields xs"
          by (simp add: Fields_dropWhile [of reSpace, OF reSpace_isSpace])
        moreover have "isSpace (CHR '' '')" by (simp add: isSpace_def)
        ultimately show ?thesis using r Cons True by simp
      next
        case r: False
        with less.hyps [of xs] Cons True show ?thesis by simp
      qed
    next
      case False
      from word_split [of s] obtain w r where
        a: "s = w @ r" and w: "\<forall>c \<in> set w. \<not> isSpace c" and r: "r = [] \<or> isSpace (hd r)"
        by blast
      have wne: "w \<noteq> []" using a Cons False r by (cases w) auto
      have wr: "\<forall>c \<in> set w. \<not> reSpace c" using w reSpace_isSpace by blast
      have r': "replaceWhitespace r = [] \<or> isSpace (hd (replaceWhitespace r))"
        using r replaceWhitespace_hd_space [of r] by (cases "r = []") auto
      have "strings_Fields (replaceWhitespace s) = strings_Fields (w @ replaceWhitespace r)"
        by (simp add: a replaceWhitespace_word [OF wr])
      also have "\<dots> = w # strings_Fields (replaceWhitespace r)"
        using w wne r' by (rule Fields_word)
      also have "strings_Fields (replaceWhitespace r) = strings_Fields r"
        using less.hyps [of r] a wne by simp
      also have "w # strings_Fields r = strings_Fields s"
        using Fields_word [OF w wne r] a by simp
      finally show ?thesis .
    qed
  qed
qed

lemma Fields_normalizeSpace: "strings_Fields (normalizeSpace s) = strings_Fields s"
  by (simp add: normalizeSpace_def Fields_replaceWhitespace Fields_TrimSpace)

subsection \<open>Inputs that need no clean-up\<close>

lemma replaceWhitespace_hd:
  "s \<noteq> [] \<Longrightarrow> \<not> reSpace (hd s) \<Longrightarrow>
     replaceWhitespace s \<noteq> [] \<and> hd (replaceWhitespace s) = hd s"
  by (cases s) auto

lemma singleSpaced_replaceWhitespace: "singleSpaced (replaceWhitespace s)"
proof (induction s rule: replaceWhitespace.induct)
  case 1
  then show ?case by simp
next
  case (2 c cs)
  show ?case
  proof (cases "reSpace c")
    case True
    let ?d = "dropWhile reSpace cs"
    have "replaceWhitespace ?d \<noteq> [] \<longrightarrow> \<not> reSpace (hd (replaceWhitespace ?d))"
    proof (cases "?d = []")
      case e: True
      then show ?thesis by (simp only: replaceWhitespace.simps) simp
    next
      case False
      then have "\<not> reSpace (hd ?d)" by (rule hd_dropWhile)
      with replaceWhitespace_hd [OF False] show ?thesis by simp
    qed
    with True "2.IH"(1) show ?thesis by simp
  next
    case False
    with "2.IH"(2) show ?thesis by simp
  qed
qed

lemma singleSpaced_id: "singleSpaced s \<Longrightarrow> replaceWhitespace s = s"
proof (induction s)
  case Nil
  then show ?case by simp
next
  case (Cons c cs)
  show ?case
  proof (cases "reSpace c")
    case True
    with Cons.prems have c: "c = CHR '' ''" and n: "cs \<noteq> [] \<longrightarrow> \<not> reSpace (hd cs)" by simp_all
    have "dropWhile reSpace cs = cs" using n by (cases cs) auto
    with True c Cons show ?thesis by simp
  next
    case False
    with Cons show ?thesis by simp
  qed
qed

lemma singleSpaced_append: "singleSpaced (a @ b) \<Longrightarrow> singleSpaced a \<and> singleSpaced b"
proof (induction a)
  case Nil
  then show ?case by simp
next
  case (Cons c cs)
  then show ?case by (cases cs) auto
qed

lemma singleSpaced_no_newline: "singleSpaced s \<Longrightarrow> CHR 0x0A \<notin> set s"
  by (induction s) (auto simp: reSpace_def)

lemma singleSpaced_blanks:
  assumes "singleSpaced (blanks @ u # rest)" and "blanks \<noteq> []"
    and "\<forall>b \<in> set blanks. reSpace b"
  shows "blanks = '' ''"
proof -
  from assms(2) obtain b bs where bl: "blanks = b # bs" by (cases blanks) auto
  with assms have b: "b = CHR '' ''" and n: "\<not> reSpace (hd (bs @ u # rest))" by simp_all
  have "bs = []"
  proof (rule ccontr)
    assume "bs \<noteq> []"
    then have "hd (bs @ u # rest) = hd bs" and "hd bs \<in> set bs" by simp_all
    with assms(3) bl n show False by simp
  qed
  with b bl show ?thesis by simp
qed



lemma Contains_iff: "strings_Contains s sub \<longleftrightarrow> (\<exists>a b. s = a @ sub @ b)"
proof (induction s)
  case Nil
  then show ?case by auto
next
  case (Cons c cs)
  show ?case
  proof
    assume "strings_Contains (c # cs) sub"
    then consider "take (length sub) (c # cs) = sub" | "strings_Contains cs sub" by auto
    then show "\<exists>a b. c # cs = a @ sub @ b"
    proof cases
      case 1
      then have "c # cs = [] @ sub @ drop (length sub) (c # cs)"
        by (metis append_Nil append_take_drop_id)
      then show ?thesis by blast
    next
      case 2
      with Cons obtain a b where "cs = a @ sub @ b" by blast
      then have "c # cs = (c # a) @ sub @ b" by simp
      then show ?thesis by blast
    qed
  next
    assume "\<exists>a b. c # cs = a @ sub @ b"
    then obtain a b where ab: "c # cs = a @ sub @ b" by blast
    show "strings_Contains (c # cs) sub"
    proof (cases a)
      case Nil
      with ab have "take (length sub) (c # cs) = sub" by (metis append_Nil append_eq_conv_conj)
      then show ?thesis by simp
    next
      case (Cons x xs)
      with ab have "cs = xs @ sub @ b" by simp
      with Cons.IH show ?thesis by auto
    qed
  qed
qed

lemma not_Contains_part: "\<not> strings_Contains (a @ x @ b) sub \<Longrightarrow> \<not> strings_Contains x sub"
proof
  assume n: "\<not> strings_Contains (a @ x @ b) sub" and "strings_Contains x sub"
  then obtain p q where "x = p @ sub @ q" by (auto simp: Contains_iff)
  then have "a @ x @ b = (a @ p) @ sub @ (q @ b)" by simp
  with n show False unfolding Contains_iff by blast
qed

lemma ReplaceAll_id: "\<not> strings_Contains s old \<Longrightarrow> strings_ReplaceAll s old new = s"
  by (induction s old new rule: strings_ReplaceAll.induct) auto

lemma replaceRepeated_id: "\<not> strings_Contains s [m, m] \<Longrightarrow> replaceRepeated m s = s"
proof (induction m s rule: replaceRepeated.induct)
  case (1 m)
  then show ?case by simp
next
  case (2 m c cs)
  then show ?case by (cases cs) auto
qed

lemma cleanText_id:
  assumes "singleSpaced x" and "tight x"
    and "\<not> strings_Contains x '' ,''" "\<not> strings_Contains x '' .''"
    and "\<not> strings_Contains x '' !''" "\<not> strings_Contains x '' ?''"
    and "\<not> strings_Contains x ''..''" "\<not> strings_Contains x ''!!''"
    and "\<not> strings_Contains x ''??''"
  shows "cleanText x = x"
  using assms
  by (simp add: cleanText_def Let_def singleSpaced_id ReplaceAll_id replaceRepeated_id
      tight_TrimSpace_id)

subsection \<open>The sentences, joined, are the normalized input\<close>

lemma replaceSentenceRegex_plain:
  "\<not> isTerminal u \<Longrightarrow> replaceSentenceRegex (u # rest) = u # replaceSentenceRegex rest"
  by simp

declare replaceSentenceRegex.simps(2) [simp del]

lemma isUpper_not_space: "isUpper u \<Longrightarrow> \<not> isSpace u"
  by (auto simp: isUpper_def isSpace_def)

lemma isUpper_not_terminal: "isUpper u \<Longrightarrow> \<not> isTerminal u"
  by (auto simp: isUpper_def isTerminal_def)

lemma isTerminal_not_space: "isTerminal u \<Longrightarrow> \<not> isSpace u"
  by (auto simp: isTerminal_def isSpace_def)

lemma isTerminal_not_newline: "isTerminal u \<Longrightarrow> u \<noteq> CHR 0x0A"
  by (auto simp: isTerminal_def)

lemma isUpper_not_newline: "isUpper u \<Longrightarrow> u \<noteq> CHR 0x0A"
  by (auto simp: isUpper_def)

text \<open>The pieces into which the line feeds cut the text are tight.\<close>

lemma pieces_tight:
  assumes "CHR 0x0A \<notin> set s"
    and "case cur of [] \<Rightarrow> s \<noteq> [] \<and> \<not> isSpace (hd s) | _ \<Rightarrow> \<not> isSpace (last cur)"
    and "case s of [] \<Rightarrow> cur \<noteq> [] \<and> \<not> isSpace (hd cur) | _ \<Rightarrow> \<not> isSpace (last s)"
  shows "\<forall>p \<in> set (splitFrom cur (replaceSentenceRegex s) [CHR 0x0A]). tight p"
  using assms
proof (induction "length s" arbitrary: s cur rule: less_induct)
  case less
  show ?case
  proof (cases s)
    case Nil
    with less.prems have "cur \<noteq> []" "\<not> isSpace (hd cur)" "\<not> isSpace (last cur)"
      by (auto split: list.splits)
    then have "tight (rev cur)" by (simp add: tight_def hd_rev last_rev)
    with Nil show ?thesis by simp
  next
    case (Cons c cs)
    have cn: "c \<noteq> CHR 0x0A" using less.prems(1) Cons by auto
    from replaceSentenceRegex_cases [of c cs] show ?thesis
    proof (elim disjE exE conjE)
      assume e: "replaceSentenceRegex (c # cs) = c # replaceSentenceRegex cs"
      have sp: "splitFrom cur (replaceSentenceRegex s) [CHR 0x0A]
                  = splitFrom (c # cur) (replaceSentenceRegex cs) [CHR 0x0A]"
        using e cn Cons by simp
      have "\<forall>p \<in> set (splitFrom (c # cur) (replaceSentenceRegex cs) [CHR 0x0A]). tight p"
      proof (rule less.hyps)
        show "length cs < length s" using Cons by simp
        show "CHR 0x0A \<notin> set cs" using less.prems(1) Cons by simp
        show "case c # cur of [] \<Rightarrow> cs \<noteq> [] \<and> \<not> isSpace (hd cs) | _ \<Rightarrow> \<not> isSpace (last (c # cur))"
          using less.prems(2) Cons by (cases cur) auto
        show "case cs of [] \<Rightarrow> c # cur \<noteq> [] \<and> \<not> isSpace (hd (c # cur)) | _ \<Rightarrow> \<not> isSpace (last cs)"
          using less.prems(3) Cons by (cases cs) auto
      qed
      with sp show ?thesis by simp
    next
      fix marks blanks u rest3
      assume dec: "c # cs = marks @ blanks @ u # rest3"
        and mk: "marks \<noteq> []" "hd marks = c"
        and mt: "\<forall>m \<in> set marks. isTerminal m"
        and up: "isUpper u"
        and r: "replaceSentenceRegex (c # cs) = marks @ [CHR 0x0A, u] @ replaceSentenceRegex rest3"
      have mn: "CHR 0x0A \<notin> set marks" using mt isTerminal_not_newline by blast
      have sp: "splitFrom cur (replaceSentenceRegex s) [CHR 0x0A]
                  = (rev cur @ marks) # splitFrom [] (replaceSentenceRegex (u # rest3)) [CHR 0x0A]"
        using splitFrom_skip [OF mn, of cur "[CHR 0x0A, u] @ replaceSentenceRegex rest3" "[]"]
          r Cons replaceSentenceRegex_plain [OF isUpper_not_terminal [OF up], of rest3]
        by simp
      have lm: "\<not> isSpace (last marks)" using mt mk isTerminal_not_space by auto
      have hm: "\<not> isSpace (hd marks)" using mt mk isTerminal_not_space by (cases marks) auto
      have first: "tight (rev cur @ marks)"
      proof (cases cur)
        case Nil
        with mk lm hm show ?thesis by (simp add: tight_def)
      next
        case c2: (Cons x xs)
        then have cne: "cur \<noteq> []" by simp
        from less.prems(2) c2 have lc: "\<not> isSpace (last cur)" by simp
        have "hd (rev cur @ marks) = last cur" using cne by (simp add: hd_rev)
        with mk lm lc show ?thesis by (simp add: tight_def)
      qed
      have "\<forall>p \<in> set (splitFrom [] (replaceSentenceRegex (u # rest3)) [CHR 0x0A]). tight p"
      proof (rule less.hyps)
        have "length (c # cs) = length marks + length blanks + Suc (length rest3)"
          using dec by (metis length_append length_Cons add.assoc)
        then show "length (u # rest3) < length s" using Cons mk by (cases marks) auto
        have "set (u # rest3) \<subseteq> set (c # cs)" unfolding dec by auto
        then show "CHR 0x0A \<notin> set (u # rest3)" using less.prems(1) Cons by auto
        show "case [] of [] \<Rightarrow> u # rest3 \<noteq> [] \<and> \<not> isSpace (hd (u # rest3))
              | _ \<Rightarrow> \<not> isSpace (last [])"
          using isUpper_not_space [OF up] by simp
        have "last (c # cs) = last (u # rest3)" unfolding dec by simp
        then show "case u # rest3 of [] \<Rightarrow> [] \<noteq> [] \<and> \<not> isSpace (hd [])
              | _ \<Rightarrow> \<not> isSpace (last (u # rest3))"
          using less.prems(3) Cons by simp
      qed
      with sp first show ?thesis by simp
    qed
  qed
qed

lemma newlineToSpace_id: "CHR 0x0A \<notin> set p \<Longrightarrow> map newlineToSpace p = p"
  by (induction p) (auto simp: newlineToSpace_def)

lemma replaceSentenceRegex_back:
  "singleSpaced s \<Longrightarrow> map newlineToSpace (replaceSentenceRegex s) = s"
proof (induction "length s" arbitrary: s rule: less_induct)
  case less
  show ?case
  proof (cases s)
    case Nil
    then show ?thesis by simp
  next
    case (Cons c cs)
    have nn: "CHR 0x0A \<notin> set s" using less.prems by (rule singleSpaced_no_newline)
    from replaceSentenceRegex_cases [of c cs] show ?thesis
    proof (elim disjE exE conjE)
      assume e: "replaceSentenceRegex (c # cs) = c # replaceSentenceRegex cs"
      have "singleSpaced cs" using less.prems Cons by simp
      with less.hyps [of cs] Cons have "map newlineToSpace (replaceSentenceRegex cs) = cs" by simp
      with e Cons nn show ?thesis by (auto simp: newlineToSpace_def)
    next
      fix marks blanks u rest3
      assume dec: "c # cs = marks @ blanks @ u # rest3"
        and mk: "marks \<noteq> []"
        and bl: "blanks \<noteq> []" "\<forall>b \<in> set blanks. reSpace b"
        and r: "replaceSentenceRegex (c # cs) = marks @ [CHR 0x0A, u] @ replaceSentenceRegex rest3"
      have ss: "singleSpaced (marks @ blanks @ u # rest3)" using less.prems Cons dec by simp
      then have s2: "singleSpaced (blanks @ u # rest3)" using singleSpaced_append by blast
      then have b1: "blanks = '' ''" using bl by (rule singleSpaced_blanks)
      have "singleSpaced (u # rest3)" using s2 singleSpaced_append by blast
      then have s3: "singleSpaced rest3" by simp
      have "length (c # cs) = length marks + length blanks + Suc (length rest3)"
        using dec by (metis length_append length_Cons add.assoc)
      then have "length rest3 < length s" using Cons by simp
      from less.hyps [OF this s3]
      have ih: "map newlineToSpace (replaceSentenceRegex rest3) = rest3" .
      have "set marks \<subseteq> set s" "u \<in> set s" using dec Cons by auto
      with nn have "CHR 0x0A \<notin> set marks" "u \<noteq> CHR 0x0A" by auto
      then have "map newlineToSpace marks = marks" "newlineToSpace u = u"
        by (simp_all add: newlineToSpace_id newlineToSpace_def)
      with r ih b1 dec Cons show ?thesis by (simp add: newlineToSpace_def)
    qed
  qed
qed

lemma splitFrom_pieces_no_sep:
  "n \<notin> set cur \<Longrightarrow> \<forall>p \<in> set (splitFrom cur s [n]). n \<notin> set p"
  by (induction cur s "[n]" rule: splitFrom.induct) auto

lemma Join_newlineToSpace:
  "\<forall>p \<in> set ps. CHR 0x0A \<notin> set p \<Longrightarrow>
     map newlineToSpace (strings_Join ps [CHR 0x0A]) = strings_Join ps '' ''"
proof (induction ps "[CHR 0x0A]" rule: strings_Join.induct)
  case 1
  then show ?case by simp
next
  case (2 x)
  then show ?case by (simp add: newlineToSpace_id)
next
  case (3 x y zs)
  then have "map newlineToSpace x = x" by (simp add: newlineToSpace_id)
  with 3 show ?case by (simp add: newlineToSpace_def)
qed

lemma normalizeSpace_props:
  "\<not> blank text0 \<Longrightarrow> tight (normalizeSpace text0) \<and> singleSpaced (normalizeSpace text0)"
  by (simp add: normalizeSpace_def singleSpaced_replaceWhitespace tight_replaceWhitespace
      not_blank_TrimSpace_tight)

lemma splitIntoSentences_raw:
  assumes "\<not> blank text0"
  shows "splitIntoSentences text0
           = strings_Split (replaceSentenceRegex (normalizeSpace text0)) [CHR 0x0A]"
    and "strings_Join (splitIntoSentences text0) '' '' = normalizeSpace text0"
proof -
  define n where "n = normalizeSpace text0"
  define text2 where "text2 = replaceSentenceRegex n"
  define raw where "raw = strings_Split text2 [CHR 0x0A]"
  define sentences where "sentences = filter (\<lambda>s. s \<noteq> []) (map strings_TrimSpace raw)"
  have unf: "splitIntoSentences text0
               = (if length sentences \<le> 1 \<and> length raw = 1 then [text2] else sentences)"
    by (simp add: splitIntoSentences_def Let_def n_def normalizeSpace_def text2_def raw_def
        sentences_def)
  from normalizeSpace_props [OF assms] have tn: "tight n" and sn: "singleSpaced n"
    by (simp_all add: n_def)
  have nn: "CHR 0x0A \<notin> set n" using sn by (rule singleSpaced_no_newline)
  have "\<forall>p \<in> set (splitFrom [] (replaceSentenceRegex n) [CHR 0x0A]). tight p"
    using nn tn by (intro pieces_tight) (auto simp: tight_def split: list.splits)
  then have rt: "\<forall>p \<in> set raw. tight p" by (simp add: raw_def text2_def strings_Split_def)
  then have "map strings_TrimSpace raw = raw" by (auto intro: map_idI simp: tight_TrimSpace_id)
  moreover have "filter (\<lambda>s. s \<noteq> []) raw = raw" using rt by (auto simp: tight_def)
  ultimately have sr: "sentences = raw" by (simp add: sentences_def)
  have jr: "strings_Join raw [CHR 0x0A] = text2" by (simp add: raw_def Join_Split)
  have "length raw = 1 \<Longrightarrow> [text2] = raw"
  proof -
    assume "length raw = 1"
    then obtain p where "raw = [p]" by (cases raw) auto
    with jr show ?thesis by simp
  qed
  with unf sr have res: "splitIntoSentences text0 = raw" by auto
  then show "splitIntoSentences text0
           = strings_Split (replaceSentenceRegex (normalizeSpace text0)) [CHR 0x0A]"
    by (simp add: raw_def text2_def n_def)
  have "\<forall>p \<in> set raw. CHR 0x0A \<notin> set p"
    using splitFrom_pieces_no_sep [of "CHR 0x0A" "[]" text2] by (simp add: raw_def strings_Split_def)
  then have "strings_Join raw '' '' = map newlineToSpace (strings_Join raw [CHR 0x0A])"
    by (simp add: Join_newlineToSpace)
  also have "\<dots> = n" using jr replaceSentenceRegex_back [OF sn] by (simp add: text2_def)
  finally show "strings_Join (splitIntoSentences text0) '' '' = normalizeSpace text0"
    using res by (simp add: n_def)
qed

subsection \<open>Word preservation and idempotence\<close>

lemma Join_append:
  "a \<noteq> [] \<Longrightarrow> b \<noteq> [] \<Longrightarrow>
     strings_Join (a @ b) sep = strings_Join a sep @ sep @ strings_Join b sep"
proof (induction a sep rule: strings_Join.induct)
  case (1 sep)
  then show ?case by simp
next
  case (2 x sep)
  then show ?case by (cases b) simp_all
next
  case (3 x y zs sep)
  then show ?case by simp
qed

lemma Join_part:
  assumes "c \<noteq> []"
  shows "\<exists>p q. strings_Join (pre @ c @ post) sep = p @ strings_Join c sep @ q"
proof (cases "pre = []")
  case True
  show ?thesis
  proof (cases "post = []")
    case True
    with \<open>pre = []\<close> have "strings_Join (pre @ c @ post) sep = [] @ strings_Join c sep @ []" by simp
    then show ?thesis by blast
  next
    case False
    with \<open>pre = []\<close> assms
    have "strings_Join (pre @ c @ post) sep = [] @ strings_Join c sep @ (sep @ strings_Join post sep)"
      by (simp add: Join_append)
    then show ?thesis by blast
  qed
next
  case False
  show ?thesis
  proof (cases "post = []")
    case True
    with False assms
    have "strings_Join (pre @ c @ post) sep = (strings_Join pre sep @ sep) @ strings_Join c sep @ []"
      by (simp add: Join_append)
    then show ?thesis by blast
  next
    case p: False
    with False assms
    have "strings_Join (pre @ c @ post) sep
            = (strings_Join pre sep @ sep) @ strings_Join c sep @ (sep @ strings_Join post sep)"
      by (simp add: Join_append)
    then show ?thesis by blast
  qed
qed

lemma Join_concat:
  "\<forall>c \<in> set cs. c \<noteq> [] \<Longrightarrow>
     strings_Join (map (\<lambda>c. strings_Join c sep) cs) sep = strings_Join (concat cs) sep"
proof (induction cs)
  case Nil
  then show ?case by simp
next
  case (Cons c cs)
  show ?case
  proof (cases "cs = []")
    case True
    then show ?thesis by simp
  next
    case False
    with Cons.prems have "concat cs \<noteq> []" by (cases cs) auto
    with Cons False show ?thesis by (simp add: Join_Cons Join_append)
  qed
qed

lemma concat_map_concat:
  "concat (map (\<lambda>c. concat (map f c)) cs) = concat (map f (concat cs))"
  by (induction cs) simp_all

lemma chunkText_clean:
  assumes nb: "\<not> blank text0" and cl: "cleanInput text0"
    and parts: "splitIntoSentences text0 = pre @ chunk @ post" and ne: "chunk \<noteq> []"
  shows "chunkText chunk = strings_Join chunk '' ''"
proof -
  let ?n = "normalizeSpace text0"
  let ?x = "strings_Join chunk '' ''"
  from Join_part [OF ne, of pre post "'' ''"] obtain p q where
    "strings_Join (splitIntoSentences text0) '' '' = p @ ?x @ q"
    by (auto simp: parts)
  then have n: "?n = p @ ?x @ q" by (simp add: splitIntoSentences_raw(2) [OF nb])
  from normalizeSpace_props [OF nb] have "singleSpaced (p @ ?x @ q)" by (simp add: n)
  then have sx: "singleSpaced ?x" using singleSpaced_append by blast
  have "\<forall>s \<in> set chunk. tight s"
    using splitIntoSentences_props [OF nb] parts by auto
  then have tx: "tight ?x" using ne by (intro tight_Join) auto
  have nc: "\<not> strings_Contains ?x pat" if "\<not> strings_Contains ?n pat" for pat
    using that n not_Contains_part [of p ?x q pat] by simp
  from cl have "\<not> strings_Contains ?n '' ,''" "\<not> strings_Contains ?n '' .''"
    "\<not> strings_Contains ?n '' !''" "\<not> strings_Contains ?n '' ?''"
    "\<not> strings_Contains ?n ''..''" "\<not> strings_Contains ?n ''!!''"
    "\<not> strings_Contains ?n ''??''"
    by (simp_all add: cleanInput_def Let_def)
  then show ?thesis
    unfolding chunkText_def by (intro cleanText_id sx tx nc)
qed

lemma Format_clean:
  assumes nb: "\<not> blank text0" and cl: "cleanInput text0" and m: "0 < maxSentencesPerChunk f"
  shows "Format f text0 =
           strings_Join (map (\<lambda>c. strings_Join c '' '')
                           (paragraphChunks f (splitIntoSentences text0))) [CHR 0x0A, CHR 0x0A]"
    and "rejoinParagraphs (Format f text0) = normalizeSpace text0"
proof -
  let ?ss = "splitIntoSentences text0"
  let ?chunks = "paragraphChunks f ?ss"
  from splitIntoSentences_props [OF nb] have ne: "?ss \<noteq> []" by simp
  from paragraphChunks_props [OF m, of ?ss] ne
  have cc: "concat ?chunks = ?ss" and cne: "\<forall>c \<in> set ?chunks. c \<noteq> []" and chne: "?chunks \<noteq> []"
    by simp_all
  have ct: "chunkText c = strings_Join c '' ''" if "c \<in> set ?chunks" for c
  proof -
    from that obtain A B where "?chunks = A @ c # B" by (auto simp: in_set_conv_decomp)
    then have "concat ?chunks = concat A @ c @ concat B" by simp
    with cc have "?ss = concat A @ c @ concat B" by simp
    from chunkText_clean [OF nb cl this] cne that show ?thesis by simp
  qed
  then have mp: "map chunkText ?chunks = map (\<lambda>c. strings_Join c '' '') ?chunks" by simp
  show f: "Format f text0 =
           strings_Join (map (\<lambda>c. strings_Join c '' '') ?chunks) [CHR 0x0A, CHR 0x0A]"
    using Format_paragraphs [OF nb m] mp by simp
  have "\<forall>p \<in> set (map chunkText ?chunks). CHR 0x0A \<notin> set p"
    by (simp add: chunkText_def cleanText_no_newline)
  then have "strings_Split (Format f text0) [CHR 0x0A, CHR 0x0A] = map chunkText ?chunks"
    using chne Split_Join [of "map chunkText ?chunks" "CHR 0x0A" "[CHR 0x0A]"]
    by (simp add: Format_paragraphs [OF nb m])
  then have "rejoinParagraphs (Format f text0)
               = strings_Join (map (\<lambda>c. strings_Join c '' '') ?chunks) '' ''"
    by (simp add: rejoinParagraphs_def mp)
  also have "\<dots> = strings_Join (concat ?chunks) '' ''" using cne by (rule Join_concat)
  also have "\<dots> = normalizeSpace text0" by (simp add: cc splitIntoSentences_raw(2) [OF nb])
  finally show "rejoinParagraphs (Format f text0) = normalizeSpace text0" .
qed



text \<open>
  C1, as the code has it. On an input that needs no clean-up and whose white space is
  ASCII, the words of the output are the words of the input, in the same order.
\<close>

theorem Format_preserves_words_of_clean_input:
  assumes "cleanInput text0" and "asciiSpaced text0"
  shows "strings_Fields (Format NewTextFormatter text0) = strings_Fields text0"
proof (cases "blank text0")
  case True
  then show ?thesis by (simp add: Format_def TrimSpace_Nil_iff Fields_blank)
next
  case False
  let ?f = NewTextFormatter
  let ?ss = "splitIntoSentences text0"
  let ?chunks = "paragraphChunks ?f ?ss"
  have m: "0 < maxSentencesPerChunk ?f" by (simp add: NewTextFormatter_def)
  have sp: "\<forall>c \<in> set [CHR 0x0A, CHR 0x0A]. isSpace c" "\<forall>c \<in> set '' ''. isSpace c"
    by (simp_all add: isSpace_def)
  from paragraphChunks_props [OF m, of ?ss] have cc: "concat ?chunks = ?ss" by simp
  have "strings_Fields (Format ?f text0)
          = concat (map strings_Fields (map (\<lambda>c. strings_Join c '' '') ?chunks))"
    using sp(1) by (simp add: Format_clean(1) [OF False assms(1) m] Fields_Join)
  also have "\<dots> = concat (map (\<lambda>c. concat (map strings_Fields c)) ?chunks)"
    using sp(2) by (simp add: Fields_Join comp_def)
  also have "\<dots> = concat (map strings_Fields (concat ?chunks))"
    by (rule concat_map_concat)
  also have "\<dots> = strings_Fields (strings_Join ?ss '' '')"
    using sp(2) by (simp add: cc Fields_Join)
  also have "\<dots> = strings_Fields text0"
    by (simp add: splitIntoSentences_raw(2) [OF False] Fields_normalizeSpace)
  finally show ?thesis .
qed

lemma five_sentences_clean: "cleanInput five_sentences"
  unfolding five_sentences_def cleanInput_def normalizeSpace_def by code_simp

lemma five_sentences_asciiSpaced: "asciiSpaced five_sentences"
  unfolding five_sentences_def asciiSpaced_def unicodeSpaces_def by code_simp


theorem Format_preserves_words_of_clean_input_witness:
  "cleanInput five_sentences \<and> asciiSpaced five_sentences \<and>
   strings_Fields (Format NewTextFormatter five_sentences)
     = [''The'', ''cat'', ''sat'', ''down'', ''here.'', ''A'', ''dog'', ''ran'', ''off'', ''fast.'',
        ''We'', ''all'', ''went'', ''home'', ''then.'', ''It'', ''was'', ''a'', ''long'', ''day.'',
        ''Now'', ''we'', ''can'', ''rest'', ''well.'']"
proof -
  have e: "strings_Fields five_sentences
     = [''The'', ''cat'', ''sat'', ''down'', ''here.'', ''A'', ''dog'', ''ran'', ''off'', ''fast.'',
        ''We'', ''all'', ''went'', ''home'', ''then.'', ''It'', ''was'', ''a'', ''long'', ''day.'',
        ''Now'', ''we'', ''can'', ''rest'', ''well.'']"
    unfolding five_sentences_def by code_simp
  from Format_preserves_words_of_clean_input [OF five_sentences_clean five_sentences_asciiSpaced]
    e five_sentences_clean five_sentences_asciiSpaced
  show ?thesis by simp
qed

text \<open>
  The claim C1 as it is written fails: the clean-up removes the space before a comma, so the
  words \<open>hello\<close> and \<open>,\<close> of the input are one word of the output.
\<close>

theorem cleanup_merges_words:
  "strings_Fields ''hello , world'' = [''hello'', '','', ''world''] \<and>
   strings_Fields (Format NewTextFormatter ''hello , world'') = [''hello,'', ''world'']"
  by code_simp


subsection \<open>The sentences and the words of the specification\<close>

lemma spaced_Join: "spaced ts = strings_Join ts '' ''"
  by (induction ts rule: spaced.induct) simp_all

lemma wordsFrom_Fields:
  "\<forall>c \<in> set cur. \<not> isSpace c \<Longrightarrow> wordsFrom cur s = strings_Fields (cur @ s)"
proof (induction s arbitrary: cur)
  case Nil
  show ?case
  proof (cases "cur = []")
    case True
    then show ?thesis by simp
  next
    case False
    with Nil Fields_word [of cur "[]"] show ?thesis by simp
  qed
next
  case (Cons c cs)
  show ?case
  proof (cases "isSpace c")
    case True
    have f: "strings_Fields (c # cs) = strings_Fields cs" using True by simp
    show ?thesis
    proof (cases "cur = []")
      case e: True
      with True Cons.IH [of "[]"] f show ?thesis by simp
    next
      case False
      have "strings_Fields (cur @ c # cs) = cur # strings_Fields (c # cs)"
        using Fields_word [of cur "c # cs"] Cons.prems False True by simp
      with True False Cons.IH [of "[]"] f show ?thesis by simp
    qed
  next
    case False
    with Cons.prems have "\<forall>x \<in> set (cur @ [c]). \<not> isSpace x" by simp
    from Cons.IH [OF this] False show ?thesis by simp
  qed
qed

lemma specWords_Fields: "specWords s = strings_Fields s"
  using wordsFrom_Fields [of "[]" s] by (simp add: specWords_def)

lemma sentencesFrom_skip:
  "CHR '' '' \<notin> set p \<Longrightarrow> sentencesFrom cur (p @ r) = sentencesFrom (cur @ p) r"
  by (induction p arbitrary: cur) auto

lemma singleSpaced_tl: "singleSpaced (c # cs) \<Longrightarrow> singleSpaced cs"
  by simp

lemma split_sentencesFrom:
  assumes "singleSpaced s"
    and "\<not> (cur \<noteq> [] \<and> isTerminal (last cur) \<and> (\<exists>u r. s = CHR '' '' # u # r \<and> isUpper u))"
  shows "splitFrom (rev cur) (replaceSentenceRegex s) [CHR 0x0A] = sentencesFrom cur s"
  using assms
proof (induction s arbitrary: cur rule: length_induct)
  case (1 s)
  note IH = "1.IH" [rule_format]
  show ?case
  proof (cases s)
    case Nil
    then show ?thesis by simp
  next
    case (Cons c cs)
    have ss: "singleSpaced cs" using "1.prems"(1) Cons by simp
    have cn: "c \<noteq> CHR 0x0A" using singleSpaced_no_newline [OF "1.prems"(1)] Cons by auto
    have nocut: "\<not> (c = CHR '' '' \<and> cur \<noteq> [] \<and> isTerminal (last cur) \<and> cs \<noteq> [] \<and> isUpper (hd cs))"
    proof
      assume a: "c = CHR '' '' \<and> cur \<noteq> [] \<and> isTerminal (last cur) \<and> cs \<noteq> [] \<and> isUpper (hd cs)"
      then obtain u r where "cs = u # r" by (cases cs) auto
      with a Cons "1.prems"(2) show False by auto
    qed
    have plain: "sentencesFrom cur (c # cs) = sentencesFrom (cur @ [c]) cs"
      using nocut by (simp only: sentencesFrom.simps if_False)
    have keep: "splitFrom (rev cur) (c # replaceSentenceRegex cs) [CHR 0x0A]
                  = splitFrom (rev (cur @ [c])) (replaceSentenceRegex cs) [CHR 0x0A]"
      using cn by simp
    show ?thesis
    proof (cases "isTerminal c")
      case False
      have "\<not> (cur @ [c] \<noteq> [] \<and> isTerminal (last (cur @ [c]))
                \<and> (\<exists>u r. cs = CHR '' '' # u # r \<and> isUpper u))"
        using False by simp
      from IH [of cs "cur @ [c]", OF _ ss this] Cons
      have "splitFrom (rev (cur @ [c])) (replaceSentenceRegex cs) [CHR 0x0A]
              = sentencesFrom (cur @ [c]) cs" by simp
      with keep plain False Cons show ?thesis
        by (simp add: replaceSentenceRegex_plain)
    next
      case True
      define marks where "marks = takeWhile isTerminal (c # cs)"
      define rest1 where "rest1 = dropWhile isTerminal (c # cs)"
      define blanks where "blanks = takeWhile reSpace rest1"
      define rest2 where "rest2 = dropWhile reSpace rest1"
      have s1: "c # cs = marks @ rest1" by (simp add: marks_def rest1_def)
      have r1: "rest1 = blanks @ rest2" by (simp add: blanks_def rest2_def)
      have mt: "\<forall>m \<in> set marks. isTerminal m"
        unfolding marks_def using set_takeWhileD by fastforce
      have mne: "marks \<noteq> []" using True by (simp add: marks_def)
      show ?thesis
      proof (cases "\<exists>u rest3. rest2 = u # rest3 \<and> blanks \<noteq> [] \<and> isUpper u")
        case match: True
        then obtain u rest3 where m: "rest2 = u # rest3" "blanks \<noteq> []" "isUpper u" by blast
        have rs: "replaceSentenceRegex (c # cs) = marks @ [CHR 0x0A, u] @ replaceSentenceRegex rest3"
          using True m
          by (simp add: replaceSentenceRegex.simps(2) Let_def marks_def [symmetric]
              rest1_def [symmetric] blanks_def [symmetric] rest2_def [symmetric]
              del: takeWhile.simps dropWhile.simps)
        have "s = marks @ blanks @ u # rest3"
          using Cons s1 r1 m(1) by simp
        with "1.prems"(1) have "singleSpaced (marks @ blanks @ u # rest3)"
          by simp
        then have sb: "singleSpaced (blanks @ u # rest3)" using singleSpaced_append by blast
        have bl: "blanks = '' ''"
          using sb m(2) by (rule singleSpaced_blanks) (auto simp: blanks_def dest: set_takeWhileD)
        have s3: "singleSpaced rest3"
          using sb singleSpaced_append [of blanks "u # rest3"] by simp
        have whole: "s = marks @ blanks @ u # rest3"
          using Cons s1 r1 m(1) by simp
        have len: "length rest3 < length s"
          unfolding whole by simp
        have nn: "CHR 0x0A \<notin> set marks" using mt isTerminal_not_newline by blast
        have nsp: "CHR '' '' \<notin> set marks"
          using mt isTerminal_not_space by (auto simp: isSpace_def)
        have un: "u \<noteq> CHR 0x0A" "u \<noteq> CHR '' ''"
          using m(3) isUpper_not_newline isUpper_not_space by (auto simp: isSpace_def)
        have "\<not> ([u] \<noteq> [] \<and> isTerminal (last [u]) \<and> (\<exists>v r. rest3 = CHR '' '' # v # r \<and> isUpper v))"
          using m(3) isUpper_not_terminal by simp
        from IH [of rest3 "[u]", OF _ s3 this] len
        have ih: "splitFrom [u] (replaceSentenceRegex rest3) [CHR 0x0A] = sentencesFrom [u] rest3"
          by simp
        have "splitFrom (rev cur) (replaceSentenceRegex (c # cs)) [CHR 0x0A]
                = splitFrom (rev marks @ rev cur) (CHR 0x0A # u # replaceSentenceRegex rest3) [CHR 0x0A]"
          unfolding rs using splitFrom_skip [OF nn, of "rev cur" "CHR 0x0A # u # replaceSentenceRegex rest3" "[]"]
          by simp
        also have "\<dots> = (cur @ marks) # splitFrom [u] (replaceSentenceRegex rest3) [CHR 0x0A]"
          using un by simp
        finally have l: "splitFrom (rev cur) (replaceSentenceRegex (c # cs)) [CHR 0x0A]
                = (cur @ marks) # sentencesFrom [u] rest3" using ih by simp
        have "sentencesFrom cur (c # cs) = sentencesFrom (cur @ marks) (CHR '' '' # u # rest3)"
          using sentencesFrom_skip [OF nsp, of cur "CHR '' '' # u # rest3"] s1 r1 m(1) bl by simp
        also have "\<dots> = (cur @ marks) # sentencesFrom [] (u # rest3)"
          using mne mt m(3) by simp
        also have "\<dots> = (cur @ marks) # sentencesFrom [u] rest3"
          using un by simp
        finally show ?thesis using l Cons by simp
      next
        case nomatch: False
        have rs: "replaceSentenceRegex (c # cs) = c # replaceSentenceRegex cs"
        proof (cases rest2)
          case Nil
          then show ?thesis
            using True
            by (simp add: replaceSentenceRegex.simps(2) Let_def marks_def [symmetric]
                rest1_def [symmetric] blanks_def [symmetric] rest2_def [symmetric]
                del: takeWhile.simps dropWhile.simps)
        next
          case r2: (Cons u rest3)
          with nomatch have "\<not> (blanks \<noteq> [] \<and> isUpper u)" by simp
          then show ?thesis
            using True r2
            by (auto simp add: replaceSentenceRegex.simps(2) Let_def marks_def [symmetric]
                rest1_def [symmetric] blanks_def [symmetric] rest2_def [symmetric]
                simp del: takeWhile.simps dropWhile.simps)
        qed
        have pre: "\<not> (cur @ [c] \<noteq> [] \<and> isTerminal (last (cur @ [c]))
                \<and> (\<exists>u r. cs = CHR '' '' # u # r \<and> isUpper u))"
        proof
          assume "cur @ [c] \<noteq> [] \<and> isTerminal (last (cur @ [c]))
                \<and> (\<exists>u r. cs = CHR '' '' # u # r \<and> isUpper u)"
          then obtain u r where cs: "cs = CHR '' '' # u # r" "isUpper u" by blast
          have nt: "\<not> isTerminal (CHR '' '')" by (simp add: isTerminal_def)
          have nr: "\<not> reSpace u" using cs(2) isUpper_not_space reSpace_isSpace by blast
          have "rest1 = cs" using True cs nt by (simp add: rest1_def)
          then have "blanks = '' ''" "rest2 = u # r"
            using cs nr by (simp_all add: blanks_def rest2_def reSpace_def)
          with cs(2) nomatch show False by simp
        qed
        from IH [of cs "cur @ [c]", OF _ ss pre] Cons
        have "splitFrom (rev (cur @ [c])) (replaceSentenceRegex cs) [CHR 0x0A]
                = sentencesFrom (cur @ [c]) cs" by simp
        with keep plain rs Cons show ?thesis by simp
      qed
    qed
  qed
qed


lemma Join_Fields_id:
  assumes "singleSpaced s" and "tight s" and "CHR 0x0B \<notin> set s"
  shows "strings_Join (strings_Fields s) '' '' = s"
  using assms
proof (induction s rule: length_induct)
  case (1 s)
  note IH = "1.IH" [rule_format]
  have sp: "isSpace c \<Longrightarrow> c \<in> set s \<Longrightarrow> reSpace c" for c
    using "1.prems"(3) by (auto simp: isSpace_def reSpace_def)
  obtain w r where wr: "s = w @ r" "\<forall>c \<in> set w. \<not> isSpace c" "r = [] \<or> isSpace (hd r)"
    using word_split [of s] by blast
  have wne: "w \<noteq> []"
  proof
    assume "w = []"
    with wr "1.prems"(2) show False by (auto simp: tight_def)
  qed
  show ?case
  proof (cases r)
    case Nil
    with wr wne Fields_word [of w "[]"] show ?thesis by simp
  next
    case (Cons c r')
    with wr have c: "isSpace c" by simp
    then have rc: "reSpace c" using sp wr Cons by simp
    have ssr: "singleSpaced (c # r')" using "1.prems"(1) wr Cons singleSpaced_append by blast
    then have c': "c = CHR '' ''" and ss': "singleSpaced r'"
      and h: "r' \<noteq> [] \<longrightarrow> \<not> reSpace (hd r')" using rc by simp_all
    have rne: "r' \<noteq> []"
    proof
      assume "r' = []"
      with wr Cons have "last s = c" by simp
      with c "1.prems"(2) show False by (simp add: tight_def)
    qed
    have hd': "\<not> isSpace (hd r')"
    proof
      assume "isSpace (hd r')"
      moreover have "hd r' \<in> set s" using rne wr Cons by simp
      ultimately have "reSpace (hd r')" by (rule sp)
      with h rne show False by simp
    qed
    have "last r' = last s" using rne wr Cons by simp
    with hd' rne "1.prems"(2) have t': "tight r'" by (simp add: tight_def)
    have v': "CHR 0x0B \<notin> set r'" using "1.prems"(3) wr Cons by simp
    have "length r' < length s" using wr Cons by simp
    from IH [OF this ss' t' v'] have ih: "strings_Join (strings_Fields r') '' '' = r'" .
    have fne: "strings_Fields r' \<noteq> []"
    proof
      assume "strings_Fields r' = []"
      with ih rne show False by simp
    qed
    have "strings_Fields s = w # strings_Fields (c # r')"
      using Fields_word [of w "c # r'"] wr wne Cons c by simp
    also have "\<dots> = w # strings_Fields r'" using c by simp
    finally show ?thesis using fne ih wr Cons c' by (simp add: Join_Cons)
  qed
qed

lemma Fields_Nil_iff: "strings_Fields s = [] \<longleftrightarrow> blank s"
proof
  assume "blank s"
  then show "strings_Fields s = []" by (rule Fields_blank)
next
  assume e: "strings_Fields s = []"
  show "blank s"
  proof (rule ccontr)
    assume nb: "\<not> blank s"
    then have "tight (strings_TrimSpace s)" by (rule not_blank_TrimSpace_tight)
    then obtain c cs where t: "strings_TrimSpace s = c # cs" "\<not> isSpace c"
      by (cases "strings_TrimSpace s") (auto simp: tight_def)
    have "strings_Fields (strings_TrimSpace s) = []" using e by (simp add: Fields_TrimSpace)
    with t show False by simp
  qed
qed

lemma normalizeSpace_spaced:
  assumes "\<not> blank text0" and "CHR 0x0B \<notin> set text0"
  shows "normalizeSpace text0 = spaced (specWords text0)"
proof -
  have "CHR 0x0B \<notin> set (normalizeSpace text0)"
    using assms(2) replaceWhitespace_set [of "CHR 0x0B" "strings_TrimSpace text0"]
      TrimSpace_set [of text0]
    by (auto simp: normalizeSpace_def)
  with normalizeSpace_props [OF assms(1)]
  have "strings_Join (strings_Fields (normalizeSpace text0)) '' '' = normalizeSpace text0"
    by (intro Join_Fields_id) simp_all
  then show ?thesis by (simp add: Fields_normalizeSpace spaced_Join specWords_Fields)
qed

lemma splitIntoSentences_spec:
  assumes "\<not> blank text0" and "CHR 0x0B \<notin> set text0"
  shows "splitIntoSentences text0 = specSentences text0"
proof -
  have ne: "specWords text0 \<noteq> []" using assms(1) by (simp add: specWords_Fields Fields_Nil_iff)
  have ss: "singleSpaced (normalizeSpace text0)" using normalizeSpace_props [OF assms(1)] by simp
  have "splitIntoSentences text0
          = splitFrom (rev []) (replaceSentenceRegex (normalizeSpace text0)) [CHR 0x0A]"
    by (simp add: splitIntoSentences_raw(1) [OF assms(1)] strings_Split_def)
  also have "\<dots> = sentencesFrom [] (normalizeSpace text0)"
    using ss by (rule split_sentencesFrom) simp
  finally show ?thesis
    using ne by (simp add: specSentences_def normalizeSpace_spaced [OF assms])
qed

lemma countWords_spec: "countWords s = length (specWords s)"
proof (cases "blank s")
  case True
  then show ?thesis
    by (simp add: countWords_def specWords_Fields Fields_blank TrimSpace_Nil_iff)
next
  case False
  then have "strings_TrimSpace s \<noteq> []" by (simp add: TrimSpace_Nil_iff)
  then show ?thesis by (simp add: countWords_def specWords_Fields Fields_TrimSpace)
qed


lemma five_sentences_plainSpaced: "plainSpaced five_sentences"
  unfolding plainSpaced_def asciiSpaced_def unicodeSpaces_def five_sentences_def by code_simp

lemma five_sentences_spec:
  "specSentences five_sentences =
     [''The cat sat down here.'', ''A dog ran off fast.'', ''We all went home then.'',
      ''It was a long day.'', ''Now we can rest well.'']"
  unfolding specSentences_def specWords_def five_sentences_def by code_simp

lemma five_sentences_specWords:
  "map (\<lambda>s. length (specWords s))
     [''The cat sat down here.'', ''A dog ran off fast.'', ''We all went home then.'',
      ''It was a long day.'', ''Now we can rest well.''] = [5, 5, 5, 5, 5]"
  unfolding specWords_def by code_simp





text \<open>
  C8, as the code has it. On an input whose white space is of the class \<open>\s\<close> and that
  consists of exactly five sentences of five words each, every one ending in a full stop,
  the output has exactly two paragraphs: the first is the cleaned-up text of the first four
  sentences joined by single spaces and the second that of the fifth.
\<close>

theorem Format_five_sentences:
  assumes "plainSpaced text0"
    and "specSentences text0 = [s1, s2, s3, s4, s5]"
    and "\<forall>s \<in> set [s1, s2, s3, s4, s5]. length (specWords s) = 5 \<and> last s = CHR ''.''"
  shows "strings_Split (Format NewTextFormatter text0) [CHR 0x0A, CHR 0x0A]
           = [cleanText (spaced [s1, s2, s3, s4]), cleanText s5]"
proof -
  have v: "CHR 0x0B \<notin> set text0" using assms(1) by (simp add: plainSpaced_def)
  have "specWords text0 \<noteq> []" using assms(2) by (auto simp: specSentences_def)
  then have nb: "\<not> blank text0" by (simp add: specWords_Fields Fields_Nil_iff)
  have a: "splitIntoSentences text0 = [s1, s2, s3, s4, s5]"
    using assms(2) by (simp add: splitIntoSentences_spec [OF nb v])
  have b: "\<forall>s \<in> set [s1, s2, s3, s4, s5]. countWords s = 5"
    using assms(3) by (simp add: countWords_spec)
  from Format_five_chunks [OF a b] show ?thesis by (simp add: spaced_Join)
qed

theorem Format_five_sentences_witness:
  "plainSpaced five_sentences \<and>
   specSentences five_sentences =
     [''The cat sat down here.'', ''A dog ran off fast.'', ''We all went home then.'',
      ''It was a long day.'', ''Now we can rest well.''] \<and>
   map (\<lambda>s. length (specWords s))
     [''The cat sat down here.'', ''A dog ran off fast.'', ''We all went home then.'',
      ''It was a long day.'', ''Now we can rest well.''] = [5, 5, 5, 5, 5] \<and>
   strings_Split (Format NewTextFormatter five_sentences) [CHR 0x0A, CHR 0x0A]
     = [''The cat sat down here. A dog ran off fast. We all went home then. It was a long day.'',
        ''Now we can rest well.'']"
proof -
  have c: "cleanText (spaced [''The cat sat down here.'', ''A dog ran off fast.'',
                               ''We all went home then.'', ''It was a long day.''])
      = ''The cat sat down here. A dog ran off fast. We all went home then. It was a long day.''"
    "cleanText ''Now we can rest well.'' = ''Now we can rest well.''"
    by code_simp+
  from Format_five_sentences [OF five_sentences_plainSpaced five_sentences_spec]
    five_sentences_specWords
  have "strings_Split (Format NewTextFormatter five_sentences) [CHR 0x0A, CHR 0x0A]
     = [cleanText (spaced [''The cat sat down here.'', ''A dog ran off fast.'',
                               ''We all went home then.'', ''It was a long day.'']),
        cleanText ''Now we can rest well.'']"
    by simp
  with c five_sentences_plainSpaced five_sentences_spec five_sentences_specWords
  show ?thesis by simp
qed

text \<open>
  The claim C8 as it is written fails. Five sentences of five words that end in a full
  stop and are joined by vertical tabs stay in one paragraph; so do five such sentences
  joined by spaces that start in lower case, between which the specification and the code
  see no boundary.
\<close>

theorem unsplit_sentences_one_paragraph:
  "specSentences tabbed_five =
     [''The cat sat down here.'', ''A dog ran off fast.'', ''We all went home then.'',
      ''It was a long day.'', ''Now we can rest well.''] \<and>
   map (\<lambda>s. length (specWords s)) (specSentences tabbed_five) = [5, 5, 5, 5, 5] \<and>
   strings_Split (Format NewTextFormatter tabbed_five) [CHR 0x0A, CHR 0x0A] = [tabbed_five] \<and>
   strings_Split (Format NewTextFormatter lower_case_sentences) [CHR 0x0A, CHR 0x0A]
     = [lower_case_sentences]"
  unfolding tabbed_five_def lower_case_sentences_def specSentences_def specWords_def by code_simp

section \<open>Properties of the engine's output\<close>

lemma engineOutput_Join: "engineOutput ls = strings_Join (map lineText ls) [CHR 0x0A]"
  by (induction ls rule: engineOutput.induct) simp_all

lemma Contains_positions:
  "sub \<noteq> [] \<Longrightarrow>
     strings_Contains s sub \<longleftrightarrow> (\<exists>n < length s. take (length sub) (drop n s) = sub)"
proof (induction s)
  case Nil
  then show ?case by simp
next
  case (Cons c cs)
  have "(\<exists>n < length (c # cs). take (length sub) (drop n (c # cs)) = sub)
         \<longleftrightarrow> take (length sub) (c # cs) = sub
             \<or> (\<exists>n < length cs. take (length sub) (drop n cs) = sub)"
    (is "?l \<longleftrightarrow> ?a \<or> ?b")
  proof
    assume ?l
    then obtain n where n: "n < length (c # cs)" "take (length sub) (drop n (c # cs)) = sub"
      by blast
    show "?a \<or> ?b"
    proof (cases n)
      case 0
      with n show ?thesis by simp
    next
      case (Suc k)
      with n have "k < length cs" "take (length sub) (drop k cs) = sub" by simp_all
      then show ?thesis by blast
    qed
  next
    assume "?a \<or> ?b"
    then show ?l
    proof
      assume ?a
      then have "take (length sub) (drop 0 (c # cs)) = sub" by simp
      then show ?l by blast
    next
      assume ?b
      then obtain k where "k < length cs" "take (length sub) (drop k cs) = sub" by blast
      then have "Suc k < length (c # cs)" "take (length sub) (drop (Suc k) (c # cs)) = sub"
        by simp_all
      then show ?l by blast
    qed
  qed
  with Cons show ?case by (simp del: take_Suc_Cons)
qed

lemma timestamped_Contains: "timestamped l \<longleftrightarrow> strings_Contains (lineText l) ''[00:''"
proof -
  have "length ''[00:'' = 4" by simp
  with Contains_positions [of "''[00:''" "lineText l"] show ?thesis
    unfolding timestamped_def by (simp del: length_Cons list.size)
qed

lemma Contains_dropWhile:
  "sub \<noteq> [] \<Longrightarrow> \<not> P (hd sub) \<Longrightarrow> strings_Contains (dropWhile P s) sub = strings_Contains s sub"
proof (induction s)
  case Nil
  then show ?case by simp
next
  case (Cons c cs)
  show ?case
  proof (cases "P c")
    case True
    have "take (length sub) (c # cs) \<noteq> sub"
    proof
      assume e: "take (length sub) (c # cs) = sub"
      from Cons.prems(1) obtain x xs where "sub = x # xs" by (cases sub) auto
      with e have "x = c" by simp
      with \<open>sub = x # xs\<close> True Cons.prems(2) show False by simp
    qed
    with True Cons show ?thesis by simp
  next
    case False
    then show ?thesis by simp
  qed
qed

lemma Contains_rev: "strings_Contains (rev s) (rev sub) = strings_Contains s sub"
proof -
  have "(\<exists>a b. rev s = a @ rev sub @ b) \<longleftrightarrow> (\<exists>a b. s = a @ sub @ b)"
  proof
    assume "\<exists>a b. rev s = a @ rev sub @ b"
    then obtain a b where "rev s = a @ rev sub @ b" by blast
    then have "rev (rev s) = rev (a @ rev sub @ b)" by simp
    then have "s = rev b @ sub @ rev a" by simp
    then show "\<exists>a b. s = a @ sub @ b" by blast
  next
    assume "\<exists>a b. s = a @ sub @ b"
    then obtain a b where "s = a @ sub @ b" by blast
    then have "rev s = rev b @ rev sub @ rev a" by simp
    then show "\<exists>a b. rev s = a @ rev sub @ b" by blast
  qed
  then show ?thesis by (simp add: Contains_iff)
qed

lemma Contains_TrimSpace:
  assumes "sub \<noteq> []" and "\<not> isSpace (hd sub)" and "\<not> isSpace (last sub)"
  shows "strings_Contains (strings_TrimSpace s) sub = strings_Contains s sub"
proof -
  have r: "rev sub \<noteq> []" "\<not> isSpace (hd (rev sub))"
    using assms by (simp_all add: hd_rev)
  have "strings_Contains (strings_TrimSpace s) sub
          = strings_Contains (dropWhile isSpace (rev (dropWhile isSpace s))) (rev sub)"
    unfolding strings_TrimSpace_def
    using Contains_rev [of "dropWhile isSpace (rev (dropWhile isSpace s))" "rev sub"]
    by simp
  also have "\<dots> = strings_Contains (rev (dropWhile isSpace s)) (rev sub)"
    using r by (rule Contains_dropWhile)
  also have "\<dots> = strings_Contains (dropWhile isSpace s) sub" by (rule Contains_rev)
  also have "\<dots> = strings_Contains s sub" using assms(1,2) by (rule Contains_dropWhile)
  finally show ?thesis .
qed


lemma dropWhile_mid:
  "\<not> P c \<Longrightarrow> dropWhile P (a @ c # b) = dropWhile P a @ c # b"
  by (induction a) simp_all

lemma TrimSpace_mid:
  assumes "\<not> isSpace c"
  shows "strings_TrimSpace (a @ c # b) = dropWhile isSpace a @ c # rev (dropWhile isSpace (rev b))"
proof -
  have d1: "dropWhile isSpace (a @ c # b) = dropWhile isSpace a @ c # b"
    using assms by (rule dropWhile_mid)
  have r: "rev (dropWhile isSpace a @ c # b) = rev b @ c # rev (dropWhile isSpace a)" by simp
  have d2: "dropWhile isSpace (rev b @ c # rev (dropWhile isSpace a))
              = dropWhile isSpace (rev b) @ c # rev (dropWhile isSpace a)"
    using assms by (rule dropWhile_mid)
  have "strings_TrimSpace (a @ c # b)
          = rev (dropWhile isSpace (rev b) @ c # rev (dropWhile isSpace a))"
    unfolding strings_TrimSpace_def d1 r d2 ..
  then show ?thesis by simp
qed

lemma cutFrom_skip:
  "n \<notin> set p \<Longrightarrow> cutFrom cur (p @ n # rest) [n] = Some (rev cur @ p, rest)"
  by (induction p arbitrary: cur) auto

lemma cutFrom_None: "n \<notin> set s \<Longrightarrow> cutFrom cur s [n] = None"
  by (induction s arbitrary: cur) auto

lemma blank_append_TrimSpace: "blank p \<Longrightarrow> strings_TrimSpace (p @ x) = strings_TrimSpace x"
  by (simp add: strings_TrimSpace_def blank_def dropWhile_append)

lemma rtrim_padded:
  assumes "blank tr" and "t = [] \<or> tight t" and "blank p"
  shows "strings_TrimSpace (rev (dropWhile isSpace (rev (p @ t @ tr)))) = t"
proof (cases "t = []")
  case True
  have "dropWhile isSpace (rev (p @ t @ tr)) = []"
    using assms True by (auto simp: blank_def)
  then show ?thesis using True by (simp only: strings_TrimSpace_def rev.simps dropWhile.simps)
next
  case False
  with assms(2) have t: "tight t" by simp
  then have l: "\<not> isSpace (hd (rev t))" "rev t \<noteq> []" by (simp_all add: tight_def hd_rev)
  have "dropWhile isSpace (rev (p @ t @ tr)) = dropWhile isSpace (rev t @ rev p)"
    using assms(1) by (simp add: dropWhile_append blank_def)
  also have "\<dots> = rev t @ rev p"
    using l by (cases "rev t") simp_all
  finally have "rev (dropWhile isSpace (rev (p @ t @ tr))) = p @ t" by simp
  then show ?thesis using assms(3) t by (simp add: blank_append_TrimSpace tight_TrimSpace_id)
qed

lemma lineContent_keptText:
  assumes "wellFormed l"
  shows "lineContent (strings_TrimSpace (lineText l)) = keptText l"
proof (cases l)
  case (Marked ind m p t tr)
  with assms have wf: "blank ind" "blank p" "blank tr" "t = [] \<or> tight t" "CHR '']'' \<notin> set m"
    by simp_all
  have ns: "\<not> isSpace (CHR '']'')" by (simp add: isSpace_def)
  have "CHR '']'' \<notin> set ind" using wf(1) ns by (auto simp: blank_def)
  with wf(5) have "CHR '']'' \<notin> set (dropWhile isSpace (ind @ m))"
    using set_dropWhileD [of "CHR '']''" isSpace "ind @ m"] by auto
  moreover have "strings_TrimSpace (lineText l)
      = dropWhile isSpace (ind @ m) @ CHR '']'' # rev (dropWhile isSpace (rev (p @ t @ tr)))"
    using TrimSpace_mid [OF ns, of "ind @ m" "p @ t @ tr"] Marked by simp
  ultimately have "cutFrom [] (strings_TrimSpace (lineText l)) '']''
      = Some (dropWhile isSpace (ind @ m), rev (dropWhile isSpace (rev (p @ t @ tr))))"
    using cutFrom_skip [of "CHR '']''" "dropWhile isSpace (ind @ m)" "[]"] by simp
  then show ?thesis
    using Marked rtrim_padded [OF wf(3) wf(4) wf(2)] by (simp add: lineContent_def)
next
  case (Unmarked t)
  with assms have "CHR '']'' \<notin> set (strings_TrimSpace (lineText l))"
    using TrimSpace_set [of t] by auto
  then show ?thesis using Unmarked by (simp add: lineContent_def cutFrom_None)
qed

lemma keptTexts_tight: "\<forall>l \<in> set ls. wellFormed l \<Longrightarrow> \<forall>t \<in> set (keptTexts ls). tight t"
proof
  fix t assume wf: "\<forall>l \<in> set ls. wellFormed l" and "t \<in> set (keptTexts ls)"
  then obtain l where l: "l \<in> set ls" "t = keptText l" "t \<noteq> []"
    using set_dropWhileD [of _ "\<lambda>l. \<not> timestamped l" ls] by (auto simp: keptTexts_def)
  with wf have "wellFormed l" by simp
  then show "tight t" using l(2,3) by (cases l) auto
qed

lemma parseOutput_keptTexts:
  assumes wf: "\<forall>l \<in> set ls. wellFormed l"
  shows "parseOutput (engineOutput ls) =
           (if keptTexts ls = [] then engineOutput ls else spaced (keptTexts ls))"
proof (cases "ls = []")
  case True
  then show ?thesis
    by (simp add: parseOutput_def strings_Split_def strings_TrimSpace_def keptTexts_def)
next
  case False
  let ?lines = "map lineText ls"
  have nl: "\<forall>p \<in> set ?lines. CHR 0x0A \<notin> set p"
  proof
    fix p assume "p \<in> set ?lines"
    then obtain l where "l \<in> set ls" "p = lineText l" by auto
    with wf show "CHR 0x0A \<notin> set p" by (cases l) auto
  qed
  have sp: "strings_Split (engineOutput ls) [CHR 0x0A] = ?lines"
    using False nl Split_Join [of ?lines "CHR 0x0A" "[]"] by (simp add: engineOutput_Join)
  have ts: "(\<lambda>line. \<not> strings_Contains line ''[00:'') \<circ> (\<lambda>l. strings_TrimSpace (lineText l))
              = (\<lambda>l. \<not> timestamped l)"
    by (rule ext) (simp add: timestamped_Contains Contains_TrimSpace isSpace_def)
  have "map lineContent
          (dropWhile (\<lambda>line. \<not> strings_Contains line ''[00:'') (map strings_TrimSpace ?lines))
        = map lineContent
            (map (\<lambda>l. strings_TrimSpace (lineText l)) (dropWhile (\<lambda>l. \<not> timestamped l) ls))"
    by (simp add: dropWhile_map ts comp_def)
  also have "\<dots> = map keptText (dropWhile (\<lambda>l. \<not> timestamped l) ls)"
    using wf set_dropWhileD [of _ "\<lambda>l. \<not> timestamped l" ls]
    by (auto simp: lineContent_keptText)
  finally have k: "filter (\<lambda>t. t \<noteq> [])
      (map lineContent
        (dropWhile (\<lambda>line. \<not> strings_Contains line ''[00:'') (map strings_TrimSpace ?lines)))
      = keptTexts ls"
    by (simp add: keptTexts_def)
  have pl: "parseLines ?lines False [] = concat (map (\<lambda>t. t @ '' '') (keptTexts ls))"
    using k by (simp add: parseLines_texts)
  show ?thesis
  proof (cases "keptTexts ls = []")
    case True
    with pl sp show ?thesis by (simp add: parseOutput_def strings_TrimSpace_def)
  next
    case nonempty: False
    have t: "tight (strings_Join (keptTexts ls) '' '')"
      using nonempty keptTexts_tight [OF wf] by (intro tight_Join) auto
    have "parseLines ?lines False [] = strings_Join (keptTexts ls) '' '' @ '' ''"
      using nonempty concat_spaced [of "keptTexts ls"] pl by simp
    then have "strings_TrimSpace (parseLines ?lines False []) = strings_Join (keptTexts ls) '' ''"
      using TrimSpace_append_spaces [OF t, of "'' ''"] by (simp add: isSpace_def)
    with nonempty t sp show ?thesis
      by (auto simp: parseOutput_def Let_def tight_def spaced_Join)
  qed
qed


lemma line_wellFormed:
  assumes "CHR 0x0A \<notin> set s"
  shows "\<exists>l. wellFormed l \<and> lineText l = s"
proof (cases "CHR '']'' \<in> set s")
  case False
  with assms have "wellFormed (Unmarked s) \<and> lineText (Unmarked s) = s" by simp
  then show ?thesis by blast
next
  case True
  define m where "m = takeWhile (\<lambda>c. c \<noteq> CHR '']'') s"
  define rest where "rest = tl (dropWhile (\<lambda>c. c \<noteq> CHR '']'') s)"
  define p where "p = takeWhile isSpace rest"
  define x where "x = dropWhile isSpace rest"
  define t where "t = rev (dropWhile isSpace (rev x))"
  define tr where "tr = rev (takeWhile isSpace (rev x))"
  have "dropWhile (\<lambda>c. c \<noteq> CHR '']'') s \<noteq> []" using True by simp
  moreover have "hd (dropWhile (\<lambda>c. c \<noteq> CHR '']'') s) = CHR '']''"
    using True hd_dropWhile [of "\<lambda>c. c \<noteq> CHR '']''" s] by simp
  ultimately have d: "dropWhile (\<lambda>c. c \<noteq> CHR '']'') s = CHR '']'' # rest"
    unfolding rest_def by (cases "dropWhile (\<lambda>c. c \<noteq> CHR '']'') s") simp_all
  have s: "s = m @ CHR '']'' # rest"
    using takeWhile_dropWhile_id [of "\<lambda>c. c \<noteq> CHR '']''" s] d by (simp add: m_def)
  have r: "rest = p @ x" by (simp add: p_def x_def)
  have "rev (takeWhile isSpace (rev x) @ dropWhile isSpace (rev x)) = rev (rev x)"
    by (simp only: takeWhile_dropWhile_id)
  then have "rev (dropWhile isSpace (rev x)) @ rev (takeWhile isSpace (rev x)) = x"
    by (simp only: rev_append rev_rev_ident)
  then have x: "x = t @ tr" by (simp only: t_def tr_def)
  have tt: "t = strings_TrimSpace rest" by (simp add: t_def x_def strings_TrimSpace_def)
  have t: "t = [] \<or> tight t" using TrimSpace_tight [of rest] tt by auto
  have bp: "blank p" unfolding blank_def p_def using set_takeWhileD by fastforce
  have btr: "blank tr" unfolding blank_def tr_def using set_takeWhileD by fastforce
  have nm: "CHR '']'' \<notin> set m" unfolding m_def using set_takeWhileD by fastforce
  have "set (m @ p @ t @ tr) \<subseteq> set s" using s r x by auto
  with assms have "CHR 0x0A \<notin> set ([] @ m @ p @ t @ tr)" by auto
  with bp btr t nm have "wellFormed (Marked [] m p t tr)" by (simp add: blank_def)
  moreover have "lineText (Marked [] m p t tr) = s" using s r x by simp
  ultimately show ?thesis by blast
qed

lemma engineOutput_complete: "\<exists>ls. (\<forall>l \<in> set ls. wellFormed l) \<and> engineOutput ls = output"
proof -
  let ?lines = "strings_Split output [CHR 0x0A]"
  have "\<forall>p \<in> set ?lines. CHR 0x0A \<notin> set p"
    unfolding strings_Split_def by (rule splitFrom_pieces_no_sep) simp
  then have "\<forall>p \<in> set ?lines. \<exists>l. wellFormed l \<and> lineText l = p"
    using line_wellFormed by blast
  then obtain f where f: "\<forall>p \<in> set ?lines. wellFormed (f p) \<and> lineText (f p) = p"
    by (rule bchoice [THEN exE]) 
  have "map lineText (map f ?lines) = ?lines"
    using f by (simp add: map_idI)
  then have "engineOutput (map f ?lines) = output"
    by (simp only: engineOutput_Join Join_Split)
  moreover have "\<forall>l \<in> set (map f ?lines). wellFormed l" using f by simp
  ultimately show ?thesis by blast
qed

text \<open>
  C7, as the code has it. The lines before the first timestamped line are discarded; of
  every later line the text after its first closing bracket is kept, trimmed, and a later
  line without a closing bracket is discarded whole; the kept texts that are not empty are
  joined by single spaces. When nothing is kept, the raw output is the result. Whenever
  the engine itself ends without error, \<open>Transcribe\<close> returns this result and no error.
  The output is taken to hold ASCII white space only.
\<close>

theorem parseOutput_transcript:
  assumes "\<forall>l \<in> set ls. wellFormed l" and "asciiSpaced (engineOutput ls)"
  shows "parseOutput (engineOutput ls)
           = (if keptTexts ls = [] then engineOutput ls else spaced (keptTexts ls)) \<and>
         (whisper w (filepath_Join (modelsDir c) (''ggml-'' @ modelName @ ''.bin'')) audioPath
            = Some (engineOutput ls) \<longrightarrow>
          Transcribe w c audioPath modelName
            = Inr (if keptTexts ls = [] then engineOutput ls else spaced (keptTexts ls)))"
  using parseOutput_keptTexts [OF assms(1)] by (simp add: Transcribe_def Let_def)

theorem parseOutput_transcript_witness:
  "wellFormed (Unmarked ''whisper_init'') \<and>
   wellFormed (Marked [] ''[00:00:00.000 --> 00:00:02.000'' ''   '' ''Hello world.'' []) \<and>
   asciiSpaced (''whisper_init'' @ [CHR 0x0A] @ ''[00:00:00.000 --> 00:00:02.000]   Hello world.'') \<and>
   whisper example_world
     (filepath_Join (modelsDir (whisperClient example_service)) (''ggml-'' @ ''tiny'' @ ''.bin''))
     ''/music/stereo.wav''
     = Some (''whisper_init'' @ [CHR 0x0A] @ ''[00:00:00.000 --> 00:00:02.000]   Hello world.'') \<and>
   Transcribe example_world (whisperClient example_service) ''/music/stereo.wav'' ''tiny''
     = Inr ''Hello world.'' \<and>
   wellFormed (Unmarked ''error: no speech'') \<and> asciiSpaced ''error: no speech'' \<and>
   parseOutput ''error: no speech'' = ''error: no speech''"
proof -
  let ?l1 = "Unmarked ''whisper_init''"
  let ?l2 = "Marked [] ''[00:00:00.000 --> 00:00:02.000'' ''   '' ''Hello world.'' []"
  let ?l3 = "Unmarked ''error: no speech''"
  let ?out = "''whisper_init'' @ [CHR 0x0A] @ ''[00:00:00.000 --> 00:00:02.000]   Hello world.''"
  have wf: "wellFormed ?l1" "wellFormed ?l2" "wellFormed ?l3"
    by (simp_all add: blank_def tight_def isSpace_def)
  have a: "asciiSpaced ?out" "asciiSpaced ''error: no speech''"
    unfolding asciiSpaced_def unicodeSpaces_def by code_simp+
  have o: "engineOutput [?l1, ?l2] = ?out" "engineOutput [?l3] = ''error: no speech''" by simp_all
  have k: "keptTexts [?l1, ?l2] = [''Hello world.'']" "keptTexts [?l3] = []"
    unfolding keptTexts_def timestamped_Contains by simp_all
  have w: "whisper example_world
     (filepath_Join (modelsDir (whisperClient example_service)) (''ggml-'' @ ''tiny'' @ ''.bin''))
     ''/music/stereo.wav'' = Some ?out"
    by (simp add: example_world_def)
  from parseOutput_transcript [of "[?l1, ?l2]" example_world "whisperClient example_service"
         "''tiny''" "''/music/stereo.wav''"]
  have t1: "Transcribe example_world (whisperClient example_service) ''/music/stereo.wav'' ''tiny''
     = Inr ''Hello world.''"
    using wf a w unfolding o k by simp
  from parseOutput_transcript [of "[?l3]" example_world "whisperClient example_service"
         "''tiny''" "''/music/stereo.wav''"]
  have t2: "parseOutput ''error: no speech'' = ''error: no speech''"
    using wf a unfolding o k by simp
  from wf a w t1 t2 show ?thesis by simp
qed

text \<open>
  The claim C7 as it is written fails. In the first output the line \<open>world.\<close> is content
  and no marker, and it is discarded; in the second the last line is a line of the
  engine's log and no content, and the text after its bracket is made part of the
  transcript.
\<close>

theorem transcript_drops_unmarked_content:
  "parseOutput (''[00:00:00.000 --> 00:00:02.000]   Hello'' @ [CHR 0x0A] @ ''world.'')
     = ''Hello'' \<and>
   parseOutput (''[00:00:00.000 --> 00:00:02.000]   Hello'' @ [CHR 0x0A] @
                ''whisper_print_timings: total [ms] = 12'')
     = ''Hello = 12''"
  by code_simp

end
